theory Spec2Isabelle
  imports Main "HOL-Library.Word"
begin

section \<open>Data model\<close>

text \<open>
  The two structs of \<^verbatim>\<open>main.go\<close>. Go's \<^verbatim>\<open>int\<close> is a machine integer; it is modelled
  at its width on 64-bit platforms, as a 64-bit word read as a signed number (\<open>sint\<close>),
  so that \<^verbatim>\<open>nextID++\<close> wraps as Go defines it.
\<close>

record Task =
  ID :: "64 word"
  Title :: string
  Description :: string
  Status :: string

record Message =
  Username :: string
  Content :: string

text \<open>
  A \<^verbatim>\<open>*websocket.Conn\<close> is used by the program only as a map key and as the receiver
  of \<^verbatim>\<open>ReadJSON\<close>, \<^verbatim>\<open>WriteJSON\<close> and \<^verbatim>\<open>Close\<close>; it is modelled by its identity.
\<close>

type_synonym conn = nat

text \<open>
  The calls the program makes on connections are recorded in the order they happen:
  \<open>WriteJSON c m ok\<close> is a call \<^verbatim>\<open>c.WriteJSON(m)\<close> that returned no error iff \<open>ok\<close>,
  \<open>Close c\<close> is a call \<^verbatim>\<open>c.Close()\<close>.
\<close>

datatype event = WriteJSON conn Message bool | Close conn

text \<open>
  The package-level variables: \<^verbatim>\<open>tasks\<close>, \<^verbatim>\<open>nextID\<close>, \<^verbatim>\<open>clients\<close> and the channel
  \<^verbatim>\<open>broadcast\<close>, together with the record of calls made on connections. The channel is
  unbuffered: a reader that sends waits until the hub receives. It is modelled by the
  messages whose send has begun and which the hub has not received yet, oldest first;
  the hub receives them in this order. Log output is not modelled.
\<close>

record state =
  tasks :: "Task list"
  nextID :: "64 word"
  clients :: "conn \<rightharpoonup> bool"
  broadcast :: "Message list"
  trace :: "event list"

definition init :: state where
  "init = \<lparr>tasks = [], nextID = 1, clients = Map.empty, broadcast = [], trace = []\<rparr>"

section \<open>Task API handlers\<close>

text \<open>
  The handlers take what the library calls return as their input: the result of
  \<^verbatim>\<open>strconv.Atoi\<close> on the path variable (\<open>None\<close> for an error) and the result of
  decoding the body (\<open>Inl\<close> the error text). A response is the status code and the body.
\<close>

datatype body = TaskBody Task | TasksBody "Task list" | ErrorBody string | NoBody

type_synonym response = "nat \<times> body"

definition createTask :: "string + Task \<Rightarrow> state \<Rightarrow> response \<times> state" where
  "createTask req s =
     (case req of
        Inl err \<Rightarrow> ((400, ErrorBody err), s)
      | Inr task0 \<Rightarrow>
          let task1 = task0\<lparr>ID := nextID s\<rparr>;
              s1 = s\<lparr>nextID := nextID s + 1\<rparr>;
              task2 = (if Status task1 = '''' then task1\<lparr>Status := ''pending''\<rparr> else task1);
              s2 = s1\<lparr>tasks := tasks s1 @ [task2]\<rparr>
          in ((201, TaskBody task2), s2))"

definition getTasks :: "state \<Rightarrow> response \<times> state" where
  "getTasks s = ((200, TasksBody (tasks s)), s)"

text \<open>The search loops of \<^verbatim>\<open>getTask\<close>, \<^verbatim>\<open>updateTask\<close> and \<^verbatim>\<open>deleteTask\<close>: the index
  of the first task whose ID is \<open>i\<close>, in a list that starts at index \<open>n\<close>.\<close>

fun find_task :: "64 word \<Rightarrow> nat \<Rightarrow> Task list \<Rightarrow> nat option" where
  "find_task i n [] = None"
| "find_task i n (task # rest) = (if ID task = i then Some n else find_task i (Suc n) rest)"

definition getTask :: "64 word option \<Rightarrow> state \<Rightarrow> response \<times> state" where
  "getTask idp s =
     (case idp of
        None \<Rightarrow> ((400, ErrorBody ''Invalid task ID''), s)
      | Some i \<Rightarrow>
          (case find_task i 0 (tasks s) of
             Some n \<Rightarrow> ((200, TaskBody (tasks s ! n)), s)
           | None \<Rightarrow> ((404, ErrorBody ''Task not found''), s)))"

definition apply_update :: "Task \<Rightarrow> Task \<Rightarrow> Task" where
  "apply_update updatedTask t =
     (let t1 = (if Title updatedTask \<noteq> '''' then t\<lparr>Title := Title updatedTask\<rparr> else t);
          t2 = (if Description updatedTask \<noteq> ''''
                then t1\<lparr>Description := Description updatedTask\<rparr> else t1);
          t3 = (if Status updatedTask \<noteq> '''' then t2\<lparr>Status := Status updatedTask\<rparr> else t2)
      in t3)"

definition updateTask :: "64 word option \<Rightarrow> string + Task \<Rightarrow> state \<Rightarrow> response \<times> state" where
  "updateTask idp req s =
     (case idp of
        None \<Rightarrow> ((400, ErrorBody ''Invalid task ID''), s)
      | Some i \<Rightarrow>
          (case req of
             Inl err \<Rightarrow> ((400, ErrorBody err), s)
           | Inr updatedTask \<Rightarrow>
               (case find_task i 0 (tasks s) of
                  Some n \<Rightarrow>
                    let ts = (tasks s)[n := apply_update updatedTask (tasks s ! n)]
                    in ((200, TaskBody (ts ! n)), s\<lparr>tasks := ts\<rparr>)
                | None \<Rightarrow> ((404, ErrorBody ''Task not found''), s))))"

definition deleteTask :: "64 word option \<Rightarrow> state \<Rightarrow> response \<times> state" where
  "deleteTask idp s =
     (case idp of
        None \<Rightarrow> ((400, ErrorBody ''Invalid task ID''), s)
      | Some i \<Rightarrow>
          (case find_task i 0 (tasks s) of
             Some n \<Rightarrow> ((204, NoBody), s\<lparr>tasks := take n (tasks s) @ drop (Suc n) (tasks s)\<rparr>)
           | None \<Rightarrow> ((404, ErrorBody ''Task not found''), s)))"

section \<open>WebSocket chat handlers\<close>

text \<open>
  \<^verbatim>\<open>handleConnections\<close> and \<^verbatim>\<open>handleMessages\<close> of \<^verbatim>\<open>main.go\<close>; the file
  \<^verbatim>\<open>Go Chat Application/main.go\<close> holds the same two functions, statement for statement,
  without the task API.
\<close>

subsection \<open>Calls on connections and on the client map\<close>

definition conn_WriteJSON :: "conn \<Rightarrow> Message \<Rightarrow> bool \<Rightarrow> state \<Rightarrow> state" where
  "conn_WriteJSON c msg ok s = s\<lparr>trace := trace s @ [WriteJSON c msg ok]\<rparr>"

definition conn_Close :: "conn \<Rightarrow> state \<Rightarrow> state" where
  "conn_Close c s = s\<lparr>trace := trace s @ [Close c]\<rparr>"

text \<open>\<^verbatim>\<open>clients[ws] = true\<close> and \<^verbatim>\<open>delete(clients, ws)\<close>; Go's \<^verbatim>\<open>delete\<close> does nothing
  for a key that is not in the map.\<close>

definition register_client :: "conn \<Rightarrow> state \<Rightarrow> state" where
  "register_client ws s = s\<lparr>clients := (clients s)(ws \<mapsto> True)\<rparr>"

definition delete_clients :: "conn \<Rightarrow> state \<Rightarrow> state" where
  "delete_clients ws s = s\<lparr>clients := (clients s)(ws := None)\<rparr>"

subsection \<open>The two removal paths\<close>

text \<open>
  On a read error \<^verbatim>\<open>handleConnections\<close> deletes its connection from \<^verbatim>\<open>clients\<close> and
  leaves the loop; the function then returns and the deferred \<^verbatim>\<open>ws.Close()\<close> runs.
  On a write error \<^verbatim>\<open>handleMessages\<close> calls \<^verbatim>\<open>client.Close()\<close> and then deletes the
  client. Neither path tests whether the connection has been closed before.
\<close>

definition remove_on_read_error :: "conn \<Rightarrow> state \<Rightarrow> state" where
  "remove_on_read_error ws s = conn_Close ws (delete_clients ws s)"

definition remove_on_write_error :: "conn \<Rightarrow> state \<Rightarrow> state" where
  "remove_on_write_error client s = delete_clients client (conn_Close client s)"

subsection \<open>\<^verbatim>\<open>handleConnections\<close>\<close>

text \<open>
  One pass through the reader's loop, given what \<^verbatim>\<open>ws.ReadJSON\<close> returned (\<open>None\<close> for
  an error): the new state, and whether the loop goes on. A message sent on the
  channel is appended to the messages waiting there.
\<close>

definition reader_iteration :: "conn \<Rightarrow> Message option \<Rightarrow> state \<Rightarrow> state \<times> bool" where
  "reader_iteration ws r s =
     (case r of
        None \<Rightarrow> (delete_clients ws s, False)
      | Some msg \<Rightarrow> (s\<lparr>broadcast := broadcast s @ [msg]\<rparr>, True))"

text \<open>
  Where a reader is: waiting in \<^verbatim>\<open>ReadJSON\<close>, waiting in the send on the channel (line
  251), or returned from the handler. The channel is unbuffered, so the send ends only
  when the hub receives the message; nothing in the handler itself receives. With the
  results of the reads as its only input the loop therefore gets as far as its first
  successful read: on a read error it returns, and after a message it waits in the send
  with the message pending. How a reader goes on once the hub has taken its message is
  a matter of runs, below.
\<close>

datatype reader_at = AtRead | AtSend | Returned

fun reader_loop :: "conn \<Rightarrow> Message option list \<Rightarrow> state \<Rightarrow> state \<times> reader_at" where
  "reader_loop ws [] s = (s, AtRead)"
| "reader_loop ws (r # rs) s =
     (case reader_iteration ws r s of
        (s', True) \<Rightarrow> (s', AtSend)
      | (s', False) \<Rightarrow> (s', Returned))"

text \<open>The handler, given the result of the upgrade (\<open>None\<close> for an error) and the results
  of the reads. The deferred \<^verbatim>\<open>ws.Close()\<close> runs when the handler returns from the loop.\<close>

definition handleConnections ::
  "conn option \<Rightarrow> Message option list \<Rightarrow> state \<Rightarrow> state \<times> reader_at" where
  "handleConnections upgraded reads s =
     (case upgraded of
        None \<Rightarrow> (s, Returned)
      | Some ws \<Rightarrow>
          (case reader_loop ws reads (register_client ws s) of
             (s', Returned) \<Rightarrow> (conn_Close ws s', Returned)
           | (s', at) \<Rightarrow> (s', at)))"

subsection \<open>\<^verbatim>\<open>handleMessages\<close>\<close>

text \<open>The body of the loop over the clients, for one client; \<open>ok\<close> tells whether
  \<^verbatim>\<open>WriteJSON\<close> returned no error.\<close>

definition send_to :: "Message \<Rightarrow> bool \<Rightarrow> conn \<Rightarrow> state \<Rightarrow> state" where
  "send_to msg ok client s =
     (let s1 = conn_WriteJSON client msg ok s
      in if \<not> ok then remove_on_write_error client s1 else s1)"

text \<open>
  \<^verbatim>\<open>for client := range clients\<close>. Go leaves the order of a map iteration open: the list
  is the order in which this iteration reaches the keys that are in the map when it
  starts. A key deleted before it is reached is not produced, which is the test on
  \<open>clients s client\<close>. \<open>wr c\<close> tells whether the write to \<open>c\<close> succeeds.
\<close>

fun range_clients :: "Message \<Rightarrow> (conn \<Rightarrow> bool) \<Rightarrow> conn list \<Rightarrow> state \<Rightarrow> state" where
  "range_clients msg wr [] s = s"
| "range_clients msg wr (client # rest) s =
     (if clients s client = None then range_clients msg wr rest s
      else range_clients msg wr rest (send_to msg (wr client) client s))"

text \<open>One pass through the hub's loop: \<open>None\<close> when no message is waiting on the channel
  (the receive blocks), otherwise the state after the fan-out of the oldest one.\<close>

definition hub_iteration :: "conn list \<Rightarrow> (conn \<Rightarrow> bool) \<Rightarrow> state \<Rightarrow> state option" where
  "hub_iteration order wr s =
     (case broadcast s of
        [] \<Rightarrow> None
      | msg # queue \<Rightarrow> Some (range_clients msg wr order (s\<lparr>broadcast := queue\<rparr>)))"

text \<open>The loop never ends; it is run for as many passes as iteration orders and write
  outcomes are given, and stops early where the receive blocks.\<close>

fun handleMessages :: "(conn list \<times> (conn \<Rightarrow> bool)) list \<Rightarrow> state \<Rightarrow> state" where
  "handleMessages [] s = s"
| "handleMessages ((order, wr) # env) s =
     (case hub_iteration order wr s of
        None \<Rightarrow> s
      | Some s' \<Rightarrow> handleMessages env s')"

text \<open>The iteration orders given to the hub are those of the map: each lists the keys
  of \<^verbatim>\<open>clients\<close> at the start of its fan-out, once each.\<close>

fun orders_of_map :: "(conn list \<times> (conn \<Rightarrow> bool)) list \<Rightarrow> state \<Rightarrow> bool" where
  "orders_of_map [] s = True"
| "orders_of_map ((order, wr) # env) s =
     (distinct order \<and> set order = dom (clients s) \<and>
      (case hub_iteration order wr s of
         None \<Rightarrow> True
       | Some s' \<Rightarrow> orders_of_map env s'))"

subsection \<open>What a connection observes\<close>

fun delivered_by :: "conn \<Rightarrow> event \<Rightarrow> Message list" where
  "delivered_by c (WriteJSON c' m ok) = (if c' = c \<and> ok then [m] else [])"
| "delivered_by c (Close c') = []"

definition received :: "conn \<Rightarrow> state \<Rightarrow> Message list" where
  "received c s = concat (map (delivered_by c) (trace s))"

fun written_to :: "conn \<Rightarrow> event \<Rightarrow> bool" where
  "written_to c (WriteJSON c' m ok) = (c' = c)"
| "written_to c (Close c') = False"

definition write_attempts :: "conn \<Rightarrow> state \<Rightarrow> event list" where
  "write_attempts c s = filter (written_to c) (trace s)"

definition close_calls :: "conn \<Rightarrow> state \<Rightarrow> nat" where
  "close_calls c s = count_list (trace s) (Close c)"

definition is_open :: "conn \<Rightarrow> state \<Rightarrow> bool" where
  "is_open c s = (Close c \<notin> set (trace s))"

section \<open>The goroutines together\<close>

text \<open>
  The program runs one goroutine per request and one for the hub. A run is a sequence
  of steps, each a whole pass of one goroutine: an upgrade with the registration, one
  pass of a reader's loop (with the deferred close when it leaves the loop), one pass
  of the hub's loop, one task request. The steps of different goroutines alternate in
  any order, but a step is not cut in two: what happens when two goroutines are inside
  the map \<^verbatim>\<open>clients\<close> at the same time is not described by a run (the task handlers
  exclude each other by \<^verbatim>\<open>tasksMu\<close>; the chat handlers take no lock).
  A step \<open>Read ws r\<close> is the pass of the reader of \<open>ws\<close> whose read returns \<open>r\<close>; in
  the program it happens only when the hub has received the reader's previous message.
  The runs of the program are thus among the lists of steps, and what holds of every
  list of steps holds of every run.
\<close>

datatype request =
    CreateTask "string + Task"
  | GetTasks
  | GetTask "64 word option"
  | UpdateTask "64 word option" "string + Task"
  | DeleteTask "64 word option"

fun handle :: "request \<Rightarrow> state \<Rightarrow> response \<times> state" where
  "handle (CreateTask req) s = createTask req s"
| "handle GetTasks s = getTasks s"
| "handle (GetTask idp) s = getTask idp s"
| "handle (UpdateTask idp req) s = updateTask idp req s"
| "handle (DeleteTask idp) s = deleteTask idp s"

datatype step =
    Upgrade "conn option"
  | Read conn "Message option"
  | Hub "conn list" "conn \<Rightarrow> bool"
  | Api request

fun exec :: "step \<Rightarrow> state \<Rightarrow> state" where
  "exec (Upgrade None) s = s"
| "exec (Upgrade (Some ws)) s = register_client ws s"
| "exec (Read ws r) s =
     (case reader_iteration ws r s of
        (s', True) \<Rightarrow> s'
      | (s', False) \<Rightarrow> conn_Close ws s')"
| "exec (Hub order wr) s = (case hub_iteration order wr s of None \<Rightarrow> s | Some s' \<Rightarrow> s')"
| "exec (Api req) s = snd (handle req s)"

fun run :: "step list \<Rightarrow> state \<Rightarrow> state" where
  "run [] s = s"
| "run (st # sts) s = run sts (exec st s)"

text \<open>The task requests alone, with their responses. A handler holds \<^verbatim>\<open>tasksMu\<close> from its
  first access to the store until it returns, so the requests take effect one after
  another, in some order: the order of the list.\<close>

fun serve :: "request list \<Rightarrow> state \<Rightarrow> response list \<times> state" where
  "serve [] s = ([], s)"
| "serve (req # reqs) s =
     (case handle req s of
        (r, s') \<Rightarrow> (case serve reqs s' of (rs, s'') \<Rightarrow> (r # rs, s'')))"

text \<open>The IDs handed out: those of the tasks in the \<open>201\<close> responses.\<close>

fun assigned_id :: "response \<Rightarrow> 64 word list" where
  "assigned_id (code, TaskBody t) = (if code = 201 then [ID t] else [])"
| "assigned_id (code, _) = []"

definition assigned_ids :: "response list \<Rightarrow> 64 word list" where
  "assigned_ids rs = concat (map assigned_id rs)"

text \<open>The calls one pass of the loop body makes on client \<open>c\<close>.\<close>

definition fan_events :: "Message \<Rightarrow> (conn \<Rightarrow> bool) \<Rightarrow> conn \<Rightarrow> event list" where
  "fan_events msg wr c =
     (if wr c then [WriteJSON c msg True] else [WriteJSON c msg False, Close c])"

section \<open>Locks and shared variables\<close>

text \<open>
  The one mutex of the program and the package-level variables that goroutines share.
  (The channel \<^verbatim>\<open>broadcast\<close> is left out: channel operations are safe for concurrent use.)
\<close>

datatype mutex = TasksMu

datatype shared = Var_tasks | Var_nextID | Var_clients

text \<open>
  What a handler does with locks and shared variables, in the order of its statements,
  each access with its line in \<^verbatim>\<open>main.go\<close>. \<open>DeferUnlock\<close> is \<^verbatim>\<open>defer tasksMu.Unlock()\<close>,
  which releases the lock when the handler returns, after all its accesses.
\<close>

datatype sync_op = Lock mutex | DeferUnlock mutex | Load nat shared | Store nat shared

definition createTask_ops :: "sync_op list" where
  "createTask_ops =
     [Lock TasksMu, DeferUnlock TasksMu,
      Load 101 Var_nextID, Load 102 Var_nextID, Store 102 Var_nextID,
      Load 110 Var_tasks, Store 110 Var_tasks]"

definition getTasks_ops :: "sync_op list" where
  "getTasks_ops = [Lock TasksMu, DeferUnlock TasksMu, Load 121 Var_tasks]"

definition getTask_ops :: "sync_op list" where
  "getTask_ops = [Lock TasksMu, DeferUnlock TasksMu, Load 140 Var_tasks]"

definition updateTask_ops :: "sync_op list" where
  "updateTask_ops =
     [Lock TasksMu, DeferUnlock TasksMu, Load 175 Var_tasks,
      Store 178 Var_tasks, Store 181 Var_tasks, Store 184 Var_tasks, Load 187 Var_tasks]"

definition deleteTask_ops :: "sync_op list" where
  "deleteTask_ops =
     [Lock TasksMu, DeferUnlock TasksMu, Load 212 Var_tasks, Load 214 Var_tasks,
      Store 214 Var_tasks]"

text \<open>\<^verbatim>\<open>clients[ws] = true\<close> and \<^verbatim>\<open>delete(clients, ws)\<close> in \<^verbatim>\<open>handleConnections\<close>;
  \<^verbatim>\<open>range clients\<close> and \<^verbatim>\<open>delete(clients, client)\<close> in \<^verbatim>\<open>handleMessages\<close>.\<close>

definition handleConnections_ops :: "sync_op list" where
  "handleConnections_ops = [Store 239 Var_clients, Store 247 Var_clients]"

definition handleMessages_ops :: "sync_op list" where
  "handleMessages_ops = [Load 261 Var_clients, Store 266 Var_clients]"

text \<open>Each access with the locks held when it is made: the line, the variable, whether
  it is a write, and the locks.\<close>

type_synonym access = "nat \<times> shared \<times> bool \<times> mutex list"

fun with_locks :: "mutex list \<Rightarrow> sync_op list \<Rightarrow> access list" where
  "with_locks held [] = []"
| "with_locks held (Lock m # ops) = with_locks (m # held) ops"
| "with_locks held (DeferUnlock m # ops) = with_locks held ops"
| "with_locks held (Load l v # ops) = (l, v, False, held) # with_locks held ops"
| "with_locks held (Store l v # ops) = (l, v, True, held) # with_locks held ops"

text \<open>Two accesses made by different goroutines conflict when they are to the same
  variable, one of them is a write, and no lock is held at both.\<close>

fun conflict :: "access \<Rightarrow> access \<Rightarrow> bool" where
  "conflict (l, v, w, held) (l', v', w', held') =
     (v = v' \<and> (w \<or> w') \<and> \<not> list_ex (\<lambda>m. m \<in> set held') held)"

text \<open>The conflicting pairs of lines of two handlers that run in different goroutines,
  and of any two handlers of a list.\<close>

definition races :: "sync_op list \<Rightarrow> sync_op list \<Rightarrow> (nat \<times> nat) list" where
  "races p q =
     map (\<lambda>(a, b). (fst a, fst b))
       (filter (\<lambda>(a, b). conflict a b) (List.product (with_locks [] p) (with_locks [] q)))"

definition all_races :: "sync_op list list \<Rightarrow> (nat \<times> nat) list" where
  "all_races handlers = concat (map (\<lambda>p. concat (map (races p) handlers)) handlers)"

section \<open>Concrete inputs\<close>

definition two_tasks :: state where
  "two_tasks =
     init\<lparr>tasks := [\<lparr>ID = 1, Title = ''a'', Description = ''b'', Status = ''pending''\<rparr>,
                     \<lparr>ID = 2, Title = ''c'', Description = ''d'', Status = ''pending''\<rparr>],
          nextID := 3\<rparr>"

definition new_title_and_status :: Task where
  "new_title_and_status = \<lparr>ID = 7, Title = ''x'', Description = '''', Status = ''completed''\<rparr>"

text \<open>A client that creates a task and deletes it again, \<open>n\<close> times over; \<open>i\<close> is the
  ID the first of these tasks gets.\<close>

fun create_delete_pairs :: "Task \<Rightarrow> 64 word \<Rightarrow> nat \<Rightarrow> request list" where
  "create_delete_pairs t i 0 = []"
| "create_delete_pairs t i (Suc n) =
     CreateTask (Inr t) # DeleteTask (Some i) # create_delete_pairs t (i + 1) n"

definition blank_task :: Task where
  "blank_task = \<lparr>ID = 0, Title = ''t'', Description = '''', Status = ''''\<rparr>"

definition wrapping_requests :: "request list" where
  "wrapping_requests =
     create_delete_pairs blank_task 1 9223372036854775806 @
     [CreateTask (Inr blank_task), CreateTask (Inr blank_task)]"

definition three_requests :: "request list" where
  "three_requests =
     [CreateTask (Inr blank_task), DeleteTask (Some 1), CreateTask (Inr new_title_and_status)]"

text \<open>The invariant of the task store while the counter, read as the integer \<open>c\<close>, has
  not passed the largest \<^verbatim>\<open>int\<close>: the stored IDs increase along the slice and lie below
  the counter.\<close>

definition store_inv :: "int \<Rightarrow> state \<Rightarrow> bool" where
  "store_inv c s =
     (nextID s = word_of_int c \<and> 1 \<le> c \<and> c \<le> 2 ^ 63 \<and>
      sorted_wrt (<) (map (\<lambda>t. sint (ID t)) (tasks s)) \<and>
      list_all (\<lambda>t. 1 \<le> sint (ID t) \<and> sint (ID t) < c) (tasks s))"

text \<open>A client that creates one task and keeps it, then creates and deletes \<open>2^64 - 1\<close>
  tasks, and creates one more.\<close>

definition duplicate_requests :: "request list" where
  "duplicate_requests =
     CreateTask (Inr blank_task) #
     create_delete_pairs blank_task 2 18446744073709551615 @ [CreateTask (Inr blank_task)]"

text \<open>The invariant of the task store while the counter has gone round at most once:
  \<open>k\<close> is one more than the number of IDs handed out; the stored IDs are distinct and
  are among the \<open>k - 1\<close> IDs handed out, counted from 1.\<close>

definition store_distinct :: "nat \<Rightarrow> state \<Rightarrow> bool" where
  "store_distinct k s =
     (nextID s = word_of_nat k \<and> 1 \<le> k \<and> k \<le> 2 ^ 64 + 1 \<and>
      distinct (map ID (tasks s)) \<and>
      list_all (\<lambda>t. unat (ID t - 1) < k - 1) (tasks s))"

definition hi_from_alice :: Message where
  "hi_from_alice = \<lparr>Username = ''alice'', Content = ''hi''\<rparr>"

definition second_message :: Message where
  "second_message = \<lparr>Username = ''alice'', Content = ''again''\<rparr>"

text \<open>Write outcomes: every write succeeds; every write fails; the writes to one
  connection fail.\<close>

definition writable :: "conn \<Rightarrow> bool" where
  "writable c = True"

definition unwritable :: "conn \<Rightarrow> bool" where
  "unwritable c = False"

definition broken :: "conn \<Rightarrow> conn \<Rightarrow> bool" where
  "broken b c = (c \<noteq> b)"

text \<open>Three connections 1, 2 and 3 are accepted, and connection 1 has sent a message.\<close>

definition three_clients :: state where
  "three_clients =
     run [Upgrade (Some 1), Upgrade (Some 2), Upgrade (Some 3), Read 1 (Some hi_from_alice)] init"

text \<open>One connection is accepted and sends a message; the write of it back fails.\<close>

definition evicted_by_hub :: state where
  "evicted_by_hub = run [Upgrade (Some 1), Read 1 (Some hi_from_alice), Hub [1] unwritable] init"

section \<open>Properties of the task store\<close>

lemma find_task_bounds:
  "find_task i n ts = Some k \<Longrightarrow> n \<le> k \<and> k < n + length ts \<and> ID (ts ! (k - n)) = i"
proof (induction ts arbitrary: n)
  case Nil
  then show ?case by simp
next
  case (Cons t ts)
  show ?case
  proof (cases "ID t = i")
    case True
    with Cons.prems show ?thesis by simp
  next
    case False
    with Cons.prems have "find_task i (Suc n) ts = Some k" by simp
    from Cons.IH[OF this] show ?thesis
      by (auto simp: nth_Cons' Suc_diff_le)
  qed
qed

lemma find_task_exists:
  "i \<in> ID ` set ts \<Longrightarrow> \<exists>k. find_task i n ts = Some k"
  by (induction ts arbitrary: n) auto

lemma find_task_first:
  "find_task i n ts = Some k \<Longrightarrow> \<forall>j. j < k - n \<longrightarrow> ID (ts ! j) \<noteq> i"
proof (induction ts arbitrary: n)
  case Nil
  then show ?case by simp
next
  case (Cons t ts)
  show ?case
  proof (cases "ID t = i")
    case True
    with Cons.prems show ?thesis by simp
  next
    case False
    with Cons.prems have f: "find_task i (Suc n) ts = Some k" by simp
    from find_task_bounds[OF f] have "Suc n \<le> k" by simp
    with Cons.IH[OF f] False show ?thesis
      by (auto simp: nth_Cons' Suc_diff_le less_Suc_eq_0_disj)
  qed
qed

text \<open>
  C9. \<^verbatim>\<open>updateTask\<close> on the ID of a stored task updates the first task with that ID
  (index \<open>n\<close>): each of Title, Description and Status is overwritten exactly when the
  request's field is not the empty string and keeps its stored value otherwise; the
  task's ID stays; every other task of the store, and every other part of the state,
  is as before; the response is 200 with the updated task.
\<close>

theorem updateTask_partial_update:
  assumes "i \<in> ID ` set (tasks s)"
    and "updateTask (Some i) (Inr u) s = (r, s')"
  shows "\<exists>n<length (tasks s).
           ID (tasks s ! n) = i \<and> (\<forall>k<n. ID (tasks s ! k) \<noteq> i) \<and>
           length (tasks s') = length (tasks s) \<and>
           Title (tasks s' ! n) = (if Title u = '''' then Title (tasks s ! n) else Title u) \<and>
           Description (tasks s' ! n) =
             (if Description u = '''' then Description (tasks s ! n) else Description u) \<and>
           Status (tasks s' ! n) = (if Status u = '''' then Status (tasks s ! n) else Status u) \<and>
           ID (tasks s' ! n) = ID (tasks s ! n) \<and>
           (\<forall>j<length (tasks s). j \<noteq> n \<longrightarrow> tasks s' ! j = tasks s ! j) \<and>
           r = (200, TaskBody (tasks s' ! n)) \<and>
           s' = s\<lparr>tasks := tasks s'\<rparr>"
proof -
  from assms(1) obtain n where f: "find_task i 0 (tasks s) = Some n"
    using find_task_exists by blast
  from find_task_bounds[OF f] have n: "n < length (tasks s)" "ID (tasks s ! n) = i" by simp_all
  from find_task_first[OF f] have first: "\<forall>k<n. ID (tasks s ! k) \<noteq> i" by simp
  from assms(2) f have s': "s' = s\<lparr>tasks := (tasks s)[n := apply_update u (tasks s ! n)]\<rparr>"
    and r: "r = (200, TaskBody ((tasks s)[n := apply_update u (tasks s ! n)] ! n))"
    by (auto simp: updateTask_def Let_def)
  show ?thesis
    using n first s' r by (intro exI[of _ n]) (simp add: apply_update_def Let_def)
qed

theorem updateTask_partial_update_witness:
  "2 \<in> ID ` set (tasks two_tasks) \<and>
   updateTask (Some 2) (Inr new_title_and_status) two_tasks =
     ((200, TaskBody \<lparr>ID = 2, Title = ''x'', Description = ''d'', Status = ''completed''\<rparr>),
      two_tasks\<lparr>tasks := [\<lparr>ID = 1, Title = ''a'', Description = ''b'', Status = ''pending''\<rparr>,
                          \<lparr>ID = 2, Title = ''x'', Description = ''d'', Status = ''completed''\<rparr>]\<rparr>) \<and>
   (\<exists>n<length (tasks two_tasks). ID (tasks two_tasks ! n) = 2 \<and>
      (\<forall>j<length (tasks two_tasks). j \<noteq> n \<longrightarrow>
         [\<lparr>ID = 1, Title = ''a'', Description = ''b'', Status = ''pending''\<rparr>,
          \<lparr>ID = 2, Title = ''x'', Description = ''d'', Status = ''completed''\<rparr>] ! j = tasks two_tasks ! j))"
proof -
  have h1: "2 \<in> ID ` set (tasks two_tasks)"
    by (simp add: two_tasks_def init_def)
  have h2: "updateTask (Some 2) (Inr new_title_and_status) two_tasks =
     ((200, TaskBody \<lparr>ID = 2, Title = ''x'', Description = ''d'', Status = ''completed''\<rparr>),
      two_tasks\<lparr>tasks := [\<lparr>ID = 1, Title = ''a'', Description = ''b'', Status = ''pending''\<rparr>,
                          \<lparr>ID = 2, Title = ''x'', Description = ''d'', Status = ''completed''\<rparr>]\<rparr>)"
    by (simp add: updateTask_def two_tasks_def init_def new_title_and_status_def
        apply_update_def Let_def)
  from updateTask_partial_update[OF h1 h2] have
    "\<exists>n<length (tasks two_tasks). ID (tasks two_tasks ! n) = 2 \<and>
      (\<forall>j<length (tasks two_tasks). j \<noteq> n \<longrightarrow>
         [\<lparr>ID = 1, Title = ''a'', Description = ''b'', Status = ''pending''\<rparr>,
          \<lparr>ID = 2, Title = ''x'', Description = ''d'', Status = ''completed''\<rparr>] ! j = tasks two_tasks ! j)"
    by auto
  with h1 h2 show ?thesis by blast
qed

lemma serve_append:
  "serve (xs @ ys) s =
     (case serve xs s of (rs, s') \<Rightarrow> (case serve ys s' of (rs', s'') \<Rightarrow> (rs @ rs', s'')))"
  by (induction xs arbitrary: s) (auto split: prod.splits)

lemma assigned_ids_append: "assigned_ids (xs @ ys) = assigned_ids xs @ assigned_ids ys"
  by (simp add: assigned_ids_def)

lemma assigned_ids_Cons: "assigned_ids (r # rs) = assigned_id r @ assigned_ids rs"
  by (simp add: assigned_ids_def)

lemma sint_counter: "- (2 ^ 63) \<le> c \<Longrightarrow> c < 2 ^ 63 \<Longrightarrow> sint (word_of_int c :: 64 word) = c"
  by (simp add: sint_sbintrunc' signed_take_bit_int_eq_self)

lemma sorted_wrt_remove: "sorted_wrt P (xs @ x # ys) \<Longrightarrow> sorted_wrt P (xs @ ys)"
  by (auto simp: sorted_wrt_append)

lemma createTask_result:
  "createTask (Inr t) s =
     ((201, TaskBody (t\<lparr>ID := nextID s, Status := (if Status t = '''' then ''pending'' else Status t)\<rparr>)),
      s\<lparr>nextID := nextID s + 1,
        tasks := tasks s @ [t\<lparr>ID := nextID s, Status := (if Status t = '''' then ''pending'' else Status t)\<rparr>]\<rparr>)"
  by (simp add: createTask_def Let_def)

lemma createTask_inv:
  assumes "store_inv c s" "c < 2 ^ 63"
  shows "store_inv (c + 1) (snd (createTask (Inr t) s))"
proof -
  from assms have c: "sint (word_of_int c :: 64 word) = c"
    by (intro sint_counter) (auto simp: store_inv_def)
  from assms show ?thesis
    unfolding createTask_result store_inv_def
    by (auto simp: c sorted_wrt_append list_all_iff)
qed

lemma deleteTask_inv:
  assumes "store_inv c s"
  shows "store_inv c (snd (deleteTask idp s))"
proof (cases idp)
  case None
  with assms show ?thesis by (simp add: deleteTask_def)
next
  case (Some i)
  show ?thesis
  proof (cases "find_task i 0 (tasks s)")
    case None
    with Some assms show ?thesis by (simp add: deleteTask_def)
  next
    case (Some n)
    from find_task_bounds[OF Some] have n: "n < length (tasks s)" by simp
    have split: "tasks s = take n (tasks s) @ tasks s ! n # drop (Suc n) (tasks s)"
      using n by (rule id_take_nth_drop)
    have "sorted_wrt (<) (map (\<lambda>t. sint (ID t)) (take n (tasks s) @ tasks s ! n # drop (Suc n) (tasks s)))"
      using assms split by (simp add: store_inv_def)
    then have "sorted_wrt (<) (map (\<lambda>t. sint (ID t)) (take n (tasks s) @ drop (Suc n) (tasks s)))"
      using sorted_wrt_remove[of "(<)" "map (\<lambda>t. sint (ID t)) (take n (tasks s))"] by simp
    moreover have "list_all (\<lambda>t. 1 \<le> sint (ID t) \<and> sint (ID t) < c) (take n (tasks s) @ drop (Suc n) (tasks s))"
      using assms by (auto simp: store_inv_def list_all_iff dest: in_set_takeD in_set_dropD)
    ultimately show ?thesis
      using assms Some \<open>idp = Some i\<close> by (simp add: deleteTask_def store_inv_def)
  qed
qed

lemma apply_update_ID: "ID (apply_update u t) = ID t"
  by (simp add: apply_update_def Let_def)

lemma updateTask_inv:
  assumes "store_inv c s"
  shows "store_inv c (snd (updateTask idp req s))"
proof -
  have ids: "map (\<lambda>t. sint (ID t)) ((tasks s)[n := apply_update u (tasks s ! n)])
               = map (\<lambda>t. sint (ID t)) (tasks s)" for n u
    by (cases "n < length (tasks s)")
      (simp_all add: map_update apply_update_ID list_update_same_conv list_update_beyond)
  have all: "list_all (\<lambda>t. 1 \<le> sint (ID t) \<and> sint (ID t) < c) ((tasks s)[n := apply_update u (tasks s ! n)])"
    if "n < length (tasks s)" for n u
    using assms that
    by (auto simp: store_inv_def list_all_length nth_list_update apply_update_ID)
  show ?thesis
    using assms ids all
    by (auto simp: updateTask_def store_inv_def Let_def split: option.splits sum.splits
        dest!: find_task_bounds)
qed


lemma serve_Cons_fst:
  "fst (serve (req # reqs) s) = fst (handle req s) # fst (serve reqs (snd (handle req s)))"
  by (simp split: prod.splits)

lemma serve_Cons_snd:
  "snd (serve (req # reqs) s) = snd (serve reqs (snd (handle req s)))"
  by (simp split: prod.splits)

lemma handle_no_id:
  assumes "\<forall>t. req \<noteq> CreateTask (Inr t)"
  shows "assigned_id (fst (handle req s)) = []"
proof (cases req)
  case (CreateTask x)
  with assms obtain e where "x = Inl e" by (cases x) auto
  with CreateTask show ?thesis by (simp add: createTask_def)
next
  case GetTasks
  then show ?thesis by (simp add: getTasks_def)
next
  case (GetTask idp)
  then show ?thesis by (simp add: getTask_def split: option.splits)
next
  case (UpdateTask idp x)
  then show ?thesis by (simp add: updateTask_def Let_def split: option.splits sum.splits)
next
  case (DeleteTask idp)
  then show ?thesis by (simp add: deleteTask_def split: option.splits)
qed

lemma handle_inv:
  assumes "store_inv c s" "\<forall>t. req \<noteq> CreateTask (Inr t)"
  shows "store_inv c (snd (handle req s))"
proof (cases req)
  case (CreateTask x)
  with assms obtain e where "x = Inl e" by (cases x) auto
  with CreateTask assms show ?thesis by (simp add: createTask_def)
next
  case GetTasks
  with assms show ?thesis by (simp add: getTasks_def)
next
  case (GetTask idp)
  with assms show ?thesis by (simp add: getTask_def split: option.splits)
next
  case (UpdateTask idp x)
  with assms show ?thesis by (simp add: updateTask_inv)
next
  case (DeleteTask idp)
  with assms show ?thesis by (simp add: deleteTask_inv)
qed

lemma serve_inv:
  assumes "store_inv c s"
    and "c + int (length (assigned_ids (fst (serve reqs s)))) \<le> 2 ^ 63"
  shows "store_inv (c + int (length (assigned_ids (fst (serve reqs s))))) (snd (serve reqs s)) \<and>
         sorted_wrt (<s) (assigned_ids (fst (serve reqs s))) \<and>
         list_all (\<lambda>a. c \<le> sint a) (assigned_ids (fst (serve reqs s)))"
  using assms
proof (induction reqs arbitrary: c s)
  case Nil
  then show ?case by (simp add: assigned_ids_def)
next
  case (Cons req reqs)
  show ?case
  proof (cases "\<exists>t. req = CreateTask (Inr t)")
    case True
    then obtain t where req: "req = CreateTask (Inr t)" by blast
    let ?s1 = "snd (createTask (Inr t) s)"
    let ?rest = "assigned_ids (fst (serve reqs ?s1))"
    have ids: "assigned_ids (fst (serve (req # reqs) s)) = nextID s # ?rest"
      unfolding serve_Cons_fst assigned_ids_Cons req by (simp add: createTask_result)
    have st: "snd (serve (req # reqs) s) = snd (serve reqs ?s1)"
      unfolding serve_Cons_snd req by simp
    from Cons.prems(2) ids have bound: "c + 1 + int (length ?rest) \<le> 2 ^ 63" by simp
    then have c: "c < 2 ^ 63" by linarith
    from Cons.prems(1) have c1: "1 \<le> c" and nid: "nextID s = word_of_int c"
      by (simp_all add: store_inv_def)
    from c c1 have sc: "sint (word_of_int c :: 64 word) = c"
      by (intro sint_counter) simp_all
    from createTask_inv[OF Cons.prems(1) c] have inv1: "store_inv (c + 1) ?s1" .
    from Cons.IH[OF inv1 bound]
    have ih: "store_inv (c + 1 + int (length ?rest)) (snd (serve reqs ?s1))"
      "sorted_wrt (<s) ?rest" "list_all (\<lambda>a. c + 1 \<le> sint a) ?rest"
      by simp_all
    have "\<forall>a\<in>set ?rest. nextID s <s a"
      using ih(3) by (auto simp: list_all_iff word_sless_alt nid sc)
    moreover have "\<forall>a\<in>set ?rest. c \<le> sint a"
      using ih(3) by (auto simp: list_all_iff)
    ultimately show ?thesis
      unfolding ids st using ih(1,2) by (simp add: nid sc list_all_iff add.assoc)
  next
    case False
    then have no: "\<forall>t. req \<noteq> CreateTask (Inr t)" by blast
    let ?s1 = "snd (handle req s)"
    have ids: "assigned_ids (fst (serve (req # reqs) s)) = assigned_ids (fst (serve reqs ?s1))"
      unfolding serve_Cons_fst assigned_ids_Cons by (simp add: handle_no_id[OF no])
    have st: "snd (serve (req # reqs) s) = snd (serve reqs ?s1)"
      by (rule serve_Cons_snd)
    from Cons.prems(2) ids
    have bound: "c + int (length (assigned_ids (fst (serve reqs ?s1)))) \<le> 2 ^ 63" by simp
    from Cons.IH[OF handle_inv[OF Cons.prems(1) no] bound] show ?thesis
      unfolding ids st .
  qed
qed

lemma store_inv_init: "store_inv 1 init"
  by (simp add: store_inv_def init_def)

lemma store_inv_ids:
  assumes "store_inv c s"
  shows "sorted_wrt (<s) (map ID (tasks s)) \<and> distinct (map ID (tasks s))"
proof -
  from assms have srt: "sorted_wrt (<) (map sint (map ID (tasks s)))"
    by (simp add: store_inv_def comp_def)
  then have "distinct (map sint (map ID (tasks s)))"
    using strict_sorted_iff by blast
  then have "distinct (map ID (tasks s))"
    using distinct_map by blast
  moreover from srt have "sorted_wrt (<s) (map ID (tasks s))"
    by (simp add: sorted_wrt_map word_sless_alt)
  ultimately show ?thesis by simp
qed

lemma unat_counter:
  assumes "1 \<le> k" "k \<le> 2 ^ 64"
  shows "unat (word_of_nat k - 1 :: 64 word) = k - 1"
proof -
  from assms(1) obtain j where k: "k = Suc j" by (cases k) auto
  with assms(2) have j: "j < 2 ^ 64" by simp
  have "unat (word_of_nat j :: 64 word) = j mod 2 ^ 64"
    using unat_of_nat[where 'a = 64 and x = j] by simp
  with j have "unat (word_of_nat j :: 64 word) = j" by simp
  then show ?thesis by (simp add: k)
qed

lemma createTask_distinct:
  assumes "store_distinct k s" "k \<le> 2 ^ 64"
  shows "store_distinct (k + 1) (snd (createTask (Inr t) s))"
proof -
  from assms have u: "unat (word_of_nat k - 1 :: 64 word) = k - 1"
    by (intro unat_counter) (auto simp: store_distinct_def)
  have new: "word_of_nat k \<notin> ID ` set (tasks s)"
  proof
    assume "word_of_nat k \<in> ID ` set (tasks s)"
    then obtain t' where "t' \<in> set (tasks s)" "ID t' = word_of_nat k" by auto
    with assms(1) have "unat (word_of_nat k - 1 :: 64 word) < k - 1"
      by (auto simp: store_distinct_def list_all_iff)
    with u show False by simp
  qed
  from assms new u show ?thesis
    unfolding createTask_result store_distinct_def
    by (auto simp: list_all_iff)
qed

lemma deleteTask_distinct:
  assumes "store_distinct k s"
  shows "store_distinct k (snd (deleteTask idp s))"
proof (cases idp)
  case None
  with assms show ?thesis by (simp add: deleteTask_def)
next
  case (Some i)
  show ?thesis
  proof (cases "find_task i 0 (tasks s)")
    case None
    with Some assms show ?thesis by (simp add: deleteTask_def)
  next
    case (Some n)
    from find_task_bounds[OF Some] have n: "n < length (tasks s)" by simp
    have split: "tasks s = take n (tasks s) @ tasks s ! n # drop (Suc n) (tasks s)"
      using n by (rule id_take_nth_drop)
    have "distinct (map ID (take n (tasks s) @ tasks s ! n # drop (Suc n) (tasks s)))"
      using assms split by (simp add: store_distinct_def)
    then have "distinct (map ID (take n (tasks s) @ drop (Suc n) (tasks s)))"
      by auto
    moreover have "list_all (\<lambda>t. unat (ID t - 1) < k - 1) (take n (tasks s) @ drop (Suc n) (tasks s))"
      using assms by (auto simp: store_distinct_def list_all_iff dest: in_set_takeD in_set_dropD)
    ultimately show ?thesis
      using assms Some \<open>idp = Some i\<close> by (simp add: deleteTask_def store_distinct_def)
  qed
qed

lemma updateTask_distinct:
  assumes "store_distinct k s"
  shows "store_distinct k (snd (updateTask idp req s))"
proof -
  have ids: "map ID ((tasks s)[n := apply_update u (tasks s ! n)]) = map ID (tasks s)" for n u
    by (cases "n < length (tasks s)")
      (simp_all add: map_update apply_update_ID list_update_same_conv list_update_beyond)
  have all: "list_all (\<lambda>t. unat (ID t - 1) < k - 1) ((tasks s)[n := apply_update u (tasks s ! n)])"
    if "n < length (tasks s)" for n u
    using assms that
    by (auto simp: store_distinct_def list_all_length nth_list_update apply_update_ID)
  show ?thesis
    using assms ids all
    by (auto simp: updateTask_def store_distinct_def Let_def split: option.splits sum.splits
        dest!: find_task_bounds)
qed

lemma handle_distinct:
  assumes "store_distinct k s" "\<forall>t. req \<noteq> CreateTask (Inr t)"
  shows "store_distinct k (snd (handle req s))"
proof (cases req)
  case (CreateTask x)
  with assms obtain e where "x = Inl e" by (cases x) auto
  with CreateTask assms show ?thesis by (simp add: createTask_def)
next
  case GetTasks
  with assms show ?thesis by (simp add: getTasks_def)
next
  case (GetTask idp)
  with assms show ?thesis by (simp add: getTask_def split: option.splits)
next
  case (UpdateTask idp x)
  with assms show ?thesis by (simp add: updateTask_distinct)
next
  case (DeleteTask idp)
  with assms show ?thesis by (simp add: deleteTask_distinct)
qed


lemma serve_distinct:
  assumes "store_distinct k s"
    and "k + length (assigned_ids (fst (serve reqs s))) \<le> 2 ^ 64 + 1"
  shows "store_distinct (k + length (assigned_ids (fst (serve reqs s)))) (snd (serve reqs s)) \<and>
         distinct (assigned_ids (fst (serve reqs s))) \<and>
         list_all (\<lambda>a. k - 1 \<le> unat (a - 1)) (assigned_ids (fst (serve reqs s)))"
  using assms
proof (induction reqs arbitrary: k s)
  case Nil
  then show ?case by (simp add: assigned_ids_def)
next
  case (Cons req reqs)
  show ?case
  proof (cases "\<exists>t. req = CreateTask (Inr t)")
    case True
    then obtain t where req: "req = CreateTask (Inr t)" by blast
    let ?s1 = "snd (createTask (Inr t) s)"
    let ?rest = "assigned_ids (fst (serve reqs ?s1))"
    have ids: "assigned_ids (fst (serve (req # reqs) s)) = nextID s # ?rest"
      unfolding serve_Cons_fst assigned_ids_Cons req by (simp add: createTask_result)
    have st: "snd (serve (req # reqs) s) = snd (serve reqs ?s1)"
      unfolding serve_Cons_snd req by simp
    from Cons.prems(2) ids have bound: "k + 1 + length ?rest \<le> 2 ^ 64 + 1" by simp
    then have k: "k \<le> 2 ^ 64" by linarith
    from Cons.prems(1) have k1: "1 \<le> k" and nid: "nextID s = word_of_nat k"
      by (simp_all add: store_distinct_def)
    have u: "unat (nextID s - 1) = k - 1"
      unfolding nid using k1 k by (rule unat_counter)
    from createTask_distinct[OF Cons.prems(1) k] have inv1: "store_distinct (k + 1) ?s1" .
    from Cons.IH[OF inv1 bound]
    have ih: "store_distinct (k + 1 + length ?rest) (snd (serve reqs ?s1))"
      "distinct ?rest" "list_all (\<lambda>a. k \<le> unat (a - 1)) ?rest"
      by simp_all
    have fresh: "nextID s \<notin> set ?rest"
    proof
      assume "nextID s \<in> set ?rest"
      with ih(3) have "k \<le> unat (nextID s - 1)" by (simp add: list_all_iff)
      with u k1 show False by simp
    qed
    have low: "list_all (\<lambda>a. k - 1 \<le> unat (a - 1)) ?rest"
      using ih(3) by (auto simp: list_all_iff)
    show ?thesis
      unfolding ids st using ih(1,2) fresh low u by (simp add: add.assoc)
  next
    case False
    then have no: "\<forall>t. req \<noteq> CreateTask (Inr t)" by blast
    let ?s1 = "snd (handle req s)"
    have ids: "assigned_ids (fst (serve (req # reqs) s)) = assigned_ids (fst (serve reqs ?s1))"
      unfolding serve_Cons_fst assigned_ids_Cons by (simp add: handle_no_id[OF no])
    have st: "snd (serve (req # reqs) s) = snd (serve reqs ?s1)"
      by (rule serve_Cons_snd)
    from Cons.prems(2) ids
    have bound: "k + length (assigned_ids (fst (serve reqs ?s1))) \<le> 2 ^ 64 + 1" by simp
    from Cons.IH[OF handle_distinct[OF Cons.prems(1) no] bound] show ?thesis
      unfolding ids st .
  qed
qed

lemma store_distinct_init: "store_distinct 1 init"
  by (simp add: store_distinct_def init_def)

lemma find_task_new:
  "i \<notin> ID ` set ts \<Longrightarrow> ID t = i \<Longrightarrow> find_task i n (ts @ [t]) = Some (n + length ts)"
  by (induction ts arbitrary: n) auto

lemma create_delete_pairs_keep:
  "list_all (\<lambda>t'. n \<le> unat (ID t' - nextID s)) (tasks s) \<Longrightarrow>
   snd (serve (create_delete_pairs t (nextID s) n) s) = s\<lparr>nextID := nextID s + of_nat n\<rparr>"
proof (induction n arbitrary: s)
  case 0
  then show ?case by simp
next
  case (Suc n)
  let ?s2 = "s\<lparr>nextID := nextID s + 1\<rparr>"
  have pos: "\<forall>t'\<in>set (tasks s). ID t' - nextID s \<noteq> 0 \<and> Suc n \<le> unat (ID t' - nextID s)"
    using Suc.prems by (auto simp: list_all_iff)
  then have fresh: "nextID s \<notin> ID ` set (tasks s)" by auto
  have two: "snd (handle (DeleteTask (Some (nextID s))) (snd (handle (CreateTask (Inr t)) s))) = ?s2"
    using find_task_new[OF fresh, of _ 0] by (simp add: createTask_def deleteTask_def Let_def)
  have "n \<le> unat (ID t' - (nextID s + 1))" if "t' \<in> set (tasks s)" for t'
  proof -
    from pos that have nz: "ID t' - nextID s \<noteq> 0" and ge: "Suc n \<le> unat (ID t' - nextID s)"
      by auto
    have e: "ID t' - (nextID s + 1) = (ID t' - nextID s) - 1" by simp
    from unat_minus_one[OF nz] ge have "n \<le> unat ((ID t' - nextID s) - 1)" by simp
    then show ?thesis by (simp only: e)
  qed
  then have inv: "list_all (\<lambda>t'. n \<le> unat (ID t' - nextID ?s2)) (tasks ?s2)"
    by (simp add: list_all_iff)
  have "snd (serve (create_delete_pairs t (nextID s) (Suc n)) s)
          = snd (serve (create_delete_pairs t (nextID ?s2) n) ?s2)"
    using two by (simp add: serve_Cons_snd del: serve.simps handle.simps)
  also have "\<dots> = ?s2\<lparr>nextID := nextID ?s2 + of_nat n\<rparr>"
    by (rule Suc.IH[OF inv])
  finally show ?case by (simp add: add.assoc)
qed


lemma serve_append_snd: "snd (serve (xs @ ys) s) = snd (serve ys (snd (serve xs s)))"
  by (simp add: serve_append split: prod.splits)

lemma duplicate_requests_store:
  "map ID (tasks (snd (serve duplicate_requests init))) = [1, 1]"
proof -
  let ?t1 = "\<lparr>ID = 1, Title = ''t'', Description = '''', Status = ''pending''\<rparr>"
  let ?s1 = "init\<lparr>nextID := 2, tasks := [?t1]\<rparr>"
  have first: "snd (handle (CreateTask (Inr blank_task)) init) = ?s1"
    by (simp add: createTask_def Let_def blank_task_def init_def)
  have "unat (- 1 :: 64 word) = 18446744073709551615"
    by (simp add: unsigned_minus_1_eq_mask mask_eq_exp_minus_1)
  then have inv: "list_all (\<lambda>t'. 18446744073709551615 \<le> unat (ID t' - nextID ?s1)) (tasks ?s1)"
    by simp
  have n2: "nextID ?s1 = 2" by simp
  from create_delete_pairs_keep[OF inv, of blank_task]
  have "snd (serve (create_delete_pairs blank_task 2 18446744073709551615) ?s1)
          = ?s1\<lparr>nextID := 2 + of_nat 18446744073709551615\<rparr>"
    by (simp only: n2)
  then have pairs: "snd (serve (create_delete_pairs blank_task 2 18446744073709551615) ?s1)
          = init\<lparr>nextID := 1, tasks := [?t1]\<rparr>"
    by simp
  have last: "snd (serve [CreateTask (Inr blank_task)] (init\<lparr>nextID := 1, tasks := [?t1]\<rparr>))
          = init\<lparr>nextID := 2, tasks := [?t1, ?t1]\<rparr>"
    by (simp add: createTask_def Let_def blank_task_def)
  have "snd (serve duplicate_requests init) =
      snd (serve (create_delete_pairs blank_task 2 18446744073709551615 @
                  [CreateTask (Inr blank_task)]) ?s1)"
    unfolding duplicate_requests_def by (simp only: serve_Cons_snd first)
  also have "\<dots> = snd (serve [CreateTask (Inr blank_task)]
      (snd (serve (create_delete_pairs blank_task 2 18446744073709551615) ?s1)))"
    by (rule serve_append_snd)
  also have "\<dots> = init\<lparr>nextID := 2, tasks := [?t1, ?t1]\<rparr>"
    by (simp only: pairs last)
  finally have "snd (serve duplicate_requests init) = init\<lparr>nextID := 2, tasks := [?t1, ?t1]\<rparr>" .
  then show ?thesis by simp
qed

text \<open>
  C10 (as amended). \<^verbatim>\<open>createTask\<close> gives the new task the current value of \<^verbatim>\<open>nextID\<close>,
  increments the counter, sets Status to \<open>pending\<close> exactly when the request's status is
  empty, and appends the task. From the start of the program, for every sequence of
  task requests (creations, updates and deletions in any order): while at most
  \<open>2^63 - 1\<close> IDs have been handed out, the IDs handed out are strictly increasing as
  signed integers, and so are the IDs along the store; while at most \<open>2^64\<close> IDs have
  been handed out, the IDs handed out are distinct and every task in the store has a
  distinct ID. The two bounds are those of a counter of 64 bits, the width of \<^verbatim>\<open>int\<close>
  taken here: the first is the largest \<^verbatim>\<open>int\<close>, the second the number of values of an
  \<^verbatim>\<open>int\<close>.
\<close>

theorem createTask_ids_below_wrap:
  "createTask (Inr t) s =
     ((201, TaskBody (t\<lparr>ID := nextID s,
                        Status := (if Status t = '''' then ''pending'' else Status t)\<rparr>)),
      s\<lparr>nextID := nextID s + 1,
        tasks := tasks s @ [t\<lparr>ID := nextID s,
                               Status := (if Status t = '''' then ''pending'' else Status t)\<rparr>]\<rparr>) \<and>
   (length (assigned_ids (fst (serve reqs init))) \<le> 9223372036854775807 \<longrightarrow>
      sorted_wrt (<s) (assigned_ids (fst (serve reqs init))) \<and>
      sorted_wrt (<s) (map ID (tasks (snd (serve reqs init)))) \<and>
      distinct (map ID (tasks (snd (serve reqs init))))) \<and>
   (length (assigned_ids (fst (serve reqs init))) \<le> 18446744073709551616 \<longrightarrow>
      distinct (assigned_ids (fst (serve reqs init))) \<and>
      distinct (map ID (tasks (snd (serve reqs init)))))"
proof (intro conjI impI)
  show "createTask (Inr t) s =
     ((201, TaskBody (t\<lparr>ID := nextID s,
                        Status := (if Status t = '''' then ''pending'' else Status t)\<rparr>)),
      s\<lparr>nextID := nextID s + 1,
        tasks := tasks s @ [t\<lparr>ID := nextID s,
                               Status := (if Status t = '''' then ''pending'' else Status t)\<rparr>]\<rparr>)"
    by (rule createTask_result)
next
  assume "length (assigned_ids (fst (serve reqs init))) \<le> 9223372036854775807"
  then have b: "1 + int (length (assigned_ids (fst (serve reqs init)))) \<le> 2 ^ 63" by simp
  note r = serve_inv[OF store_inv_init b]
  from r show "sorted_wrt (<s) (assigned_ids (fst (serve reqs init)))" by simp
  from r store_inv_ids show "sorted_wrt (<s) (map ID (tasks (snd (serve reqs init))))" by blast
  from r store_inv_ids show "distinct (map ID (tasks (snd (serve reqs init))))" by blast
next
  assume "length (assigned_ids (fst (serve reqs init))) \<le> 18446744073709551616"
  then have b: "1 + length (assigned_ids (fst (serve reqs init))) \<le> 2 ^ 64 + 1" by simp
  note r = serve_distinct[OF store_distinct_init b]
  from r show "distinct (assigned_ids (fst (serve reqs init)))" by simp
  from r show "distinct (map ID (tasks (snd (serve reqs init))))"
    by (simp add: store_distinct_def)
qed


text \<open>The theorem at work: a task is created and deleted, and a second one is created.\<close>

theorem createTask_ids_below_wrap_witness:
  "length (assigned_ids (fst (serve three_requests init))) \<le> 9223372036854775807 \<and>
   assigned_ids (fst (serve three_requests init)) = [1, 2] \<and>
   map ID (tasks (snd (serve three_requests init))) = [2] \<and>
   sorted_wrt (<s) (assigned_ids (fst (serve three_requests init))) \<and>
   sorted_wrt (<s) (map ID (tasks (snd (serve three_requests init)))) \<and>
   distinct (map ID (tasks (snd (serve three_requests init)))) \<and>
   createTask (Inr blank_task) init =
     ((201, TaskBody \<lparr>ID = 1, Title = ''t'', Description = '''', Status = ''pending''\<rparr>),
      init\<lparr>nextID := 2,
           tasks := [\<lparr>ID = 1, Title = ''t'', Description = '''', Status = ''pending''\<rparr>]\<rparr>)"
proof -
  have run: "serve three_requests init =
      ([(201, TaskBody \<lparr>ID = 1, Title = ''t'', Description = '''', Status = ''pending''\<rparr>),
        (204, NoBody),
        (201, TaskBody \<lparr>ID = 2, Title = ''x'', Description = '''', Status = ''completed''\<rparr>)],
       init\<lparr>nextID := 3,
            tasks := [\<lparr>ID = 2, Title = ''x'', Description = '''', Status = ''completed''\<rparr>]\<rparr>)"
    by (simp add: three_requests_def blank_task_def new_title_and_status_def init_def
        createTask_def deleteTask_def Let_def)
  have ids: "assigned_ids (fst (serve three_requests init)) = [1, 2]"
    by (simp add: run assigned_ids_def)
  have h: "length (assigned_ids (fst (serve three_requests init))) \<le> 9223372036854775807"
    by (simp add: ids)
  have st: "map ID (tasks (snd (serve three_requests init))) = [2]"
    by (simp add: run)
  from createTask_ids_below_wrap[of blank_task init three_requests] h
  have "sorted_wrt (<s) (assigned_ids (fst (serve three_requests init))) \<and>
        sorted_wrt (<s) (map ID (tasks (snd (serve three_requests init)))) \<and>
        distinct (map ID (tasks (snd (serve three_requests init))))"
    and "createTask (Inr blank_task) init =
     ((201, TaskBody \<lparr>ID = 1, Title = ''t'', Description = '''', Status = ''pending''\<rparr>),
      init\<lparr>nextID := 2,
           tasks := [\<lparr>ID = 1, Title = ''t'', Description = '''', Status = ''pending''\<rparr>]\<rparr>)"
    by (simp_all add: blank_task_def init_def)
  with h ids st show ?thesis by simp
qed

lemma create_delete_pairs_run:
  "tasks s = [] \<Longrightarrow>
   snd (serve (create_delete_pairs t (nextID s) n) s) = s\<lparr>nextID := nextID s + of_nat n\<rparr>"
proof (induction n arbitrary: s)
  case 0
  then show ?case by simp
next
  case (Suc n)
  let ?s2 = "s\<lparr>nextID := nextID s + 1\<rparr>"
  have two: "snd (handle (DeleteTask (Some (nextID s))) (snd (handle (CreateTask (Inr t)) s))) = ?s2"
    using Suc.prems by (simp add: createTask_def deleteTask_def Let_def)
  have "snd (serve (create_delete_pairs t (nextID s) (Suc n)) s)
          = snd (serve (create_delete_pairs t (nextID ?s2) n) ?s2)"
    using two by (simp add: serve_Cons_snd del: serve.simps handle.simps)
  also have "\<dots> = ?s2\<lparr>nextID := nextID ?s2 + of_nat n\<rparr>"
    using Suc.prems by (intro Suc.IH) simp
  finally show ?case by (simp add: add.assoc)
qed

text \<open>
  C10 as stated, for any sequence of calls, fails in both halves where the counter
  wraps. Increasing IDs: a client that has created and deleted \<open>2^63 - 2\<close> tasks and then
  creates two is given the IDs \<open>2^63 - 1\<close> and \<open>- 2^63\<close>, in this order (\<open>2^63\<close> IDs handed
  out). Distinct IDs: a client that creates a task and keeps it, creates and deletes
  \<open>2^64 - 1\<close> tasks and creates one more has two tasks with the ID 1 in the store
  (\<open>2^64 + 1\<close> IDs handed out).
\<close>

theorem createTask_ids_wrap_counterexample:
  "\<not> sorted_wrt (<s) (assigned_ids (fst (serve wrapping_requests init))) \<and>
   map ID (tasks (snd (serve wrapping_requests init))) =
     [0x7FFFFFFFFFFFFFFF, 0x8000000000000000] \<and>
   sint (0x7FFFFFFFFFFFFFFF :: 64 word) = 9223372036854775807 \<and>
   sint (0x8000000000000000 :: 64 word) = - 9223372036854775808 \<and>
   map ID (tasks (snd (serve duplicate_requests init))) = [1, 1] \<and>
   \<not> distinct (map ID (tasks (snd (serve duplicate_requests init))))"
proof -
  note dup = duplicate_requests_store
  let ?pairs = "create_delete_pairs blank_task 1 9223372036854775806"
  let ?s = "init\<lparr>nextID := 0x7FFFFFFFFFFFFFFF\<rparr>"
  have "snd (serve (create_delete_pairs blank_task (nextID init) 9223372036854775806) init)
          = init\<lparr>nextID := nextID init + of_nat 9223372036854775806\<rparr>"
    by (rule create_delete_pairs_run) (simp add: init_def)
  then have after: "snd (serve ?pairs init) = ?s"
    by (simp add: init_def)
  have last: "serve [CreateTask (Inr blank_task), CreateTask (Inr blank_task)] ?s =
      ([(201, TaskBody \<lparr>ID = 0x7FFFFFFFFFFFFFFF, Title = ''t'', Description = '''', Status = ''pending''\<rparr>),
        (201, TaskBody \<lparr>ID = 0x8000000000000000, Title = ''t'', Description = '''', Status = ''pending''\<rparr>)],
       init\<lparr>nextID := 0x8000000000000001,
            tasks := [\<lparr>ID = 0x7FFFFFFFFFFFFFFF, Title = ''t'', Description = '''', Status = ''pending''\<rparr>,
                      \<lparr>ID = 0x8000000000000000, Title = ''t'', Description = '''', Status = ''pending''\<rparr>]\<rparr>)"
    by (simp add: createTask_def Let_def blank_task_def init_def)
  obtain rs where pre: "serve ?pairs init = (rs, ?s)"
    using after by (cases "serve ?pairs init") simp
  have whole: "serve wrapping_requests init =
      (rs @ [(201, TaskBody \<lparr>ID = 0x7FFFFFFFFFFFFFFF, Title = ''t'', Description = '''', Status = ''pending''\<rparr>),
        (201, TaskBody \<lparr>ID = 0x8000000000000000, Title = ''t'', Description = '''', Status = ''pending''\<rparr>)],
       init\<lparr>nextID := 0x8000000000000001,
            tasks := [\<lparr>ID = 0x7FFFFFFFFFFFFFFF, Title = ''t'', Description = '''', Status = ''pending''\<rparr>,
                      \<lparr>ID = 0x8000000000000000, Title = ''t'', Description = '''', Status = ''pending''\<rparr>]\<rparr>)"
    by (simp only: wrapping_requests_def serve_append pre last prod.case)
  have ids: "assigned_ids (fst (serve wrapping_requests init)) =
      assigned_ids rs @ [0x7FFFFFFFFFFFFFFF, 0x8000000000000000]"
    unfolding whole by (simp add: assigned_ids_def)
  have "\<not> (0x7FFFFFFFFFFFFFFF :: 64 word) <s 0x8000000000000000"
    by (simp add: word_sless_alt)
  then have "\<not> sorted_wrt (<s) (assigned_ids (fst (serve wrapping_requests init)))"
    unfolding ids by (simp add: sorted_wrt_append)
  moreover have "map ID (tasks (snd (serve wrapping_requests init))) =
     [0x7FFFFFFFFFFFFFFF, 0x8000000000000000]"
    unfolding whole by simp
  ultimately show ?thesis by (simp add: dup)
qed

section \<open>Properties of the chat relay\<close>

subsection \<open>The fan-out\<close>

lemma send_to_eq:
  "send_to msg ok c s =
     s\<lparr>trace := trace s @ (if ok then [WriteJSON c msg True] else [WriteJSON c msg False, Close c]),
       clients := (if ok then clients s else (clients s)(c := None))\<rparr>"
  by (simp add: send_to_def conn_WriteJSON_def remove_on_write_error_def conn_Close_def
      delete_clients_def)

lemma range_clients_eq:
  assumes "distinct order" "set order \<subseteq> dom (clients s)"
  shows "range_clients msg wr order s =
           s\<lparr>trace := trace s @ concat (map (fan_events msg wr) order),
             clients := (\<lambda>c. if c \<in> set order \<and> \<not> wr c then None else clients s c)\<rparr>"
  using assms
proof (induction order arbitrary: s)
  case Nil
  then show ?case by simp
next
  case (Cons c rest)
  let ?s1 = "send_to msg (wr c) c s"
  from Cons.prems obtain y where present: "clients s c = Some y" by auto
  from Cons.prems have d: "distinct rest" and notin: "c \<notin> set rest" by simp_all
  have sub: "set rest \<subseteq> dom (clients ?s1)"
    using Cons.prems notin by (auto simp: send_to_eq)
  have "range_clients msg wr (c # rest) s = range_clients msg wr rest ?s1"
    using present by simp
  also have "\<dots> = ?s1\<lparr>trace := trace ?s1 @ concat (map (fan_events msg wr) rest),
             clients := (\<lambda>x. if x \<in> set rest \<and> \<not> wr x then None else clients ?s1 x)\<rparr>"
    by (rule Cons.IH[OF d sub])
  also have "\<dots> = s\<lparr>trace := trace s @ concat (map (fan_events msg wr) (c # rest)),
             clients := (\<lambda>x. if x \<in> set (c # rest) \<and> \<not> wr x then None else clients s x)\<rparr>"
    by (auto simp: send_to_eq fan_events_def fun_eq_iff)
  finally show ?case .
qed

lemma range_clients_absent:
  "clients s C = None \<Longrightarrow>
   clients (range_clients msg wr order s) C = None \<and>
   write_attempts C (range_clients msg wr order s) = write_attempts C s"
proof (induction order arbitrary: s)
  case Nil
  then show ?case by simp
next
  case (Cons c rest)
  show ?case
  proof (cases "clients s c = None")
    case True
    with Cons show ?thesis by simp
  next
    case False
    then obtain y where present: "clients s c = Some y" by auto
    with Cons.prems have ne: "c \<noteq> C" by auto
    let ?s1 = "send_to msg (wr c) c s"
    have 1: "clients ?s1 C = None" using Cons.prems ne by (simp add: send_to_eq)
    have 2: "write_attempts C ?s1 = write_attempts C s"
      using ne by (simp add: send_to_eq write_attempts_def)
    from Cons.IH[OF 1] 2 present show ?thesis by simp
  qed
qed

lemma received_fan:
  "distinct order \<Longrightarrow>
   concat (map (delivered_by c) (concat (map (fan_events msg wr) order))) =
     (if c \<in> set order \<and> wr c then [msg] else [])"
  by (induction order) (auto simp: fan_events_def)

lemma attempts_fan:
  "distinct order \<Longrightarrow>
   filter (written_to c) (concat (map (fan_events msg wr) order)) =
     (if c \<in> set order then [WriteJSON c msg (wr c)] else [])"
  by (induction order) (auto simp: fan_events_def)

lemma closes_fan:
  "distinct order \<Longrightarrow>
   count_list (concat (map (fan_events msg wr) order)) (Close c) =
     (if c \<in> set order \<and> \<not> wr c then 1 else 0)"
  by (induction order) (auto simp: fan_events_def)

lemma length_fan_ok:
  "\<forall>c\<in>set order. wr c \<Longrightarrow> length (concat (map (fan_events msg wr) order)) = length order"
  by (induction order) (auto simp: fan_events_def)

lemma hub_iteration_eq:
  assumes "broadcast s = M # q" "distinct order" "set order = dom (clients s)"
  shows "hub_iteration order wr s =
           Some (s\<lparr>broadcast := q,
                   trace := trace s @ concat (map (fan_events M wr) order),
                   clients := (\<lambda>c. if c \<in> set order \<and> \<not> wr c then None else clients s c)\<rparr>)"
proof -
  have "set order \<subseteq> dom (clients (s\<lparr>broadcast := q\<rparr>))" using assms(3) by simp
  from range_clients_eq[OF assms(2) this, of M wr]
  have "range_clients M wr order (s\<lparr>broadcast := q\<rparr>) =
          s\<lparr>broadcast := q,
            trace := trace s @ concat (map (fan_events M wr) order),
            clients := (\<lambda>c. if c \<in> set order \<and> \<not> wr c then None else clients s c)\<rparr>"
    by (simp cong: if_cong)
  then show ?thesis
    by (simp add: hub_iteration_def assms(1))
qed

text \<open>
  C1. Fan-out completeness. When the hub receives a message \<open>M\<close> from the channel while
  the connections in \<^verbatim>\<open>clients\<close> are those the iteration visits and every write succeeds,
  one pass of the hub's loop writes \<open>M\<close> exactly once to each registered connection:
  each of them has received one more message, \<open>M\<close>, by a single successful write; no
  other connection is written to; the number of calls made is the number of registered
  connections; the registry is unchanged.
\<close>

theorem fanout_completeness:
  assumes "broadcast s = M # q"
    and "distinct order" and "set order = dom (clients s)"
    and "\<forall>c\<in>dom (clients s). wr c"
  shows "\<exists>s'. hub_iteration order wr s = Some s' \<and>
           handleMessages [(order, wr)] s = s' \<and>
           clients s' = clients s \<and>
           (\<forall>c\<in>dom (clients s).
              received c s' = received c s @ [M] \<and>
              write_attempts c s' = write_attempts c s @ [WriteJSON c M True]) \<and>
           (\<forall>c. c \<notin> dom (clients s) \<longrightarrow>
              received c s' = received c s \<and> write_attempts c s' = write_attempts c s) \<and>
           length (trace s') = length (trace s) + card (dom (clients s)) \<and>
           broadcast s' = q \<and> tasks s' = tasks s \<and> nextID s' = nextID s"
proof -
  let ?s' = "s\<lparr>broadcast := q,
                trace := trace s @ concat (map (fan_events M wr) order),
                clients := (\<lambda>c. if c \<in> set order \<and> \<not> wr c then None else clients s c)\<rparr>"
  have hub: "hub_iteration order wr s = Some ?s'"
    by (rule hub_iteration_eq[OF assms(1-3)])
  have cl: "clients ?s' = clients s"
    using assms(3,4) by (auto simp: fun_eq_iff)
  have card: "card (dom (clients s)) = length order"
    using assms(2,3) distinct_card by fastforce
  have len: "length (trace ?s') = length (trace s) + card (dom (clients s))"
    using assms(3,4) by (simp add: card length_fan_ok)
  have rec: "received c ?s' = received c s @ (if c \<in> set order \<and> wr c then [M] else [])" for c
    by (simp add: received_def received_fan[OF assms(2)])
  have att: "write_attempts c ?s' =
      write_attempts c s @ (if c \<in> set order then [WriteJSON c M (wr c)] else [])" for c
    by (simp add: write_attempts_def attempts_fan[OF assms(2)])
  have loop: "handleMessages [(order, wr)] s = ?s'"
    by (simp add: hub)
  show ?thesis
    using hub loop cl len rec att assms(3,4) by (intro exI[of _ ?s']) auto
qed


lemma handle_frame:
  "clients (snd (handle req s)) = clients s \<and> broadcast (snd (handle req s)) = broadcast s \<and>
   trace (snd (handle req s)) = trace s"
  by (cases req)
    (auto simp: createTask_def getTasks_def getTask_def updateTask_def deleteTask_def Let_def
      split: option.splits sum.splits)

lemma exec_absent:
  assumes "clients s C = None" "st \<noteq> Upgrade (Some C)"
  shows "clients (exec st s) C = None \<and> write_attempts C (exec st s) = write_attempts C s"
proof (cases st)
  case (Upgrade up)
  with assms show ?thesis
    by (cases up) (auto simp: register_client_def write_attempts_def)
next
  case (Read ws r)
  with assms show ?thesis
    by (cases r)
      (auto simp: reader_iteration_def delete_clients_def conn_Close_def write_attempts_def)
next
  case (Hub order wr)
  show ?thesis
  proof (cases "broadcast s")
    case Nil
    with Hub assms show ?thesis by (simp add: hub_iteration_def)
  next
    case (Cons M q)
    have "clients (s\<lparr>broadcast := q\<rparr>) C = None" using assms by simp
    from range_clients_absent[OF this, of M wr order] Hub Cons show ?thesis
      by (simp add: hub_iteration_def write_attempts_def)
  qed
next
  case (Api req)
  with assms handle_frame[of req s] show ?thesis
    by (simp add: write_attempts_def)
qed

lemma run_absent:
  "clients s C = None \<Longrightarrow> Upgrade (Some C) \<notin> set steps \<Longrightarrow>
   clients (run steps s) C = None \<and> write_attempts C (run steps s) = write_attempts C s"
proof (induction steps arbitrary: s)
  case Nil
  then show ?case by simp
next
  case (Cons st steps)
  from Cons.prems have ne: "st \<noteq> Upgrade (Some C)" and rest: "Upgrade (Some C) \<notin> set steps"
    by auto
  from exec_absent[OF Cons.prems(1) ne]
  have 1: "clients (exec st s) C = None" and 2: "write_attempts C (exec st s) = write_attempts C s"
    by simp_all
  from Cons.IH[OF 1 rest] 2 show ?case by simp
qed

text \<open>
  C2. Eviction isolation. If the write to a registered connection \<open>C\<close> fails during a
  fan-out, then \<open>C\<close> is removed from \<^verbatim>\<open>clients\<close> (and closed once), every connection whose
  write succeeds keeps its entry (so when \<open>C\<close> is the only failure, \<open>C\<close> and only \<open>C\<close> is
  removed), every connection of the recipient set gets exactly one write attempt of the
  message whatever happens to the others, those whose write succeeds receive it, and in
  every later run of the program in which \<open>C\<close> is not accepted again no write to \<open>C\<close> is
  ever attempted.
\<close>

theorem eviction_isolation:
  assumes "broadcast s = M # q"
    and "distinct order" and "set order = dom (clients s)"
    and "C \<in> dom (clients s)" and "\<not> wr C"
  shows "\<exists>s'. hub_iteration order wr s = Some s' \<and>
           handleMessages [(order, wr)] s = s' \<and>
           clients s' C = None \<and>
           (\<forall>c. wr c \<longrightarrow> clients s' c = clients s c) \<and>
           ((\<forall>c. c \<noteq> C \<longrightarrow> wr c) \<longrightarrow> clients s' = (clients s)(C := None)) \<and>
           (\<forall>c\<in>dom (clients s).
              write_attempts c s' = write_attempts c s @ [WriteJSON c M (wr c)] \<and>
              (wr c \<longrightarrow> received c s' = received c s @ [M])) \<and>
           close_calls C s' = close_calls C s + 1 \<and>
           (\<forall>steps. Upgrade (Some C) \<notin> set steps \<longrightarrow>
              clients (run steps s') C = None \<and>
              write_attempts C (run steps s') = write_attempts C s')"
proof -
  let ?s' = "s\<lparr>broadcast := q,
                trace := trace s @ concat (map (fan_events M wr) order),
                clients := (\<lambda>c. if c \<in> set order \<and> \<not> wr c then None else clients s c)\<rparr>"
  have hub: "hub_iteration order wr s = Some ?s'"
    by (rule hub_iteration_eq[OF assms(1-3)])
  have gone: "clients ?s' C = None"
    using assms(3-5) by simp
  have kept: "\<forall>c. wr c \<longrightarrow> clients ?s' c = clients s c"
    by simp
  have only: "(\<forall>c. c \<noteq> C \<longrightarrow> wr c) \<longrightarrow> clients ?s' = (clients s)(C := None)"
    using assms(3-5) by (auto simp: fun_eq_iff)
  have rec: "received c ?s' = received c s @ (if c \<in> set order \<and> wr c then [M] else [])" for c
    by (simp add: received_def received_fan[OF assms(2)])
  have att: "write_attempts c ?s' =
      write_attempts c s @ (if c \<in> set order then [WriteJSON c M (wr c)] else [])" for c
    by (simp add: write_attempts_def attempts_fan[OF assms(2)])
  have each: "\<forall>c\<in>dom (clients s).
              write_attempts c ?s' = write_attempts c s @ [WriteJSON c M (wr c)] \<and>
              (wr c \<longrightarrow> received c ?s' = received c s @ [M])"
    using rec att assms(3) by auto
  have cl: "close_calls C ?s' = close_calls C s + 1"
    using assms(3-5) by (simp add: close_calls_def closes_fan[OF assms(2)])
  have later: "\<forall>steps. Upgrade (Some C) \<notin> set steps \<longrightarrow>
              clients (run steps ?s') C = None \<and>
              write_attempts C (run steps ?s') = write_attempts C ?s'"
    using run_absent[OF gone] by blast
  have loop: "handleMessages [(order, wr)] s = ?s'"
    by (simp add: hub)
  show ?thesis
    using hub loop gone kept only each cl later by (intro exI[of _ ?s']) blast
qed


lemma handleMessages_absent:
  "clients s c = None \<Longrightarrow> clients (handleMessages env s) c = None"
proof (induction env arbitrary: s)
  case Nil
  then show ?case by simp
next
  case (Cons e env)
  obtain order wr where e: "e = (order, wr)" by (cases e)
  show ?case
  proof (cases "broadcast s")
    case Nil
    with e Cons.prems show ?thesis by (simp add: hub_iteration_def)
  next
    case (Cons M q)
    have "clients (s\<lparr>broadcast := q\<rparr>) c = None" using Cons.prems by simp
    from range_clients_absent[OF this, of M wr order]
    have "clients (range_clients M wr order (s\<lparr>broadcast := q\<rparr>)) c = None" by simp
    from Cons.IH[OF this] e Cons show ?thesis by (simp add: hub_iteration_def)
  qed
qed

lemma fan_events_msg:
  "WriteJSON c m b \<in> set (concat (map (fan_events M wr) order)) \<Longrightarrow> m = M"
  by (auto simp: fan_events_def split: if_splits)

text \<open>
  C3. FIFO delivery. Let the messages \<open>ms\<close> wait on the channel in their order of arrival,
  and let the hub run one pass for each. Then the calls the hub makes fall into one block
  per message, in the order of arrival, the block of a message holding writes of that
  message only: a fan-out is complete before the next begins. Every connection still
  registered at the end has received exactly the messages \<open>ms\<close>, in their order of arrival;
  so of any two of them it has observed the earlier one first.
\<close>

theorem fifo_delivery:
  assumes "orders_of_map env s" and "length env = length ms" and "broadcast s = ms @ q"
  shows "\<exists>blocks. length blocks = length ms \<and>
           trace (handleMessages env s) = trace s @ concat blocks \<and>
           (\<forall>i<length ms. \<forall>c m b. WriteJSON c m b \<in> set (blocks ! i) \<longrightarrow> m = ms ! i) \<and>
           (\<forall>c\<in>dom (clients (handleMessages env s)).
              received c (handleMessages env s) = received c s @ ms) \<and>
           broadcast (handleMessages env s) = q"
  using assms
proof (induction env arbitrary: s ms)
  case Nil
  then show ?case by simp
next
  case (Cons e env)
  obtain order wr where e: "e = (order, wr)" by (cases e)
  from Cons.prems(2) obtain M ms' where ms: "ms = M # ms'" and len: "length env = length ms'"
    by (cases ms) auto
  from Cons.prems(3) ms have bc: "broadcast s = M # (ms' @ q)" by simp
  from Cons.prems(1) e have d: "distinct order" and dom: "set order = dom (clients s)"
    by simp_all
  let ?fan = "concat (map (fan_events M wr) order)"
  let ?s1 = "s\<lparr>broadcast := ms' @ q, trace := trace s @ ?fan,
                clients := (\<lambda>c. if c \<in> set order \<and> \<not> wr c then None else clients s c)\<rparr>"
  have hub: "hub_iteration order wr s = Some ?s1"
    by (rule hub_iteration_eq[OF bc d dom])
  have ord1: "orders_of_map env ?s1"
  proof -
    from Cons.prems(1) e have "orders_of_map ((order, wr) # env) s" by simp
    then have "distinct order \<and> set order = dom (clients s) \<and>
        (case hub_iteration order wr s of None \<Rightarrow> True | Some s' \<Rightarrow> orders_of_map env s')"
      by (simp only: orders_of_map.simps)
    then have "case hub_iteration order wr s of None \<Rightarrow> True | Some s' \<Rightarrow> orders_of_map env s'"
      by blast
    then show ?thesis by (simp only: hub option.case)
  qed
  have bc1: "broadcast ?s1 = ms' @ q" by simp
  have unfold: "handleMessages (e # env) s = handleMessages env ?s1"
    using e hub by simp
  let ?f = "handleMessages env ?s1"
  from Cons.IH[OF ord1 len bc1] obtain blocks where
    b1: "length blocks = length ms'" and
    b2: "trace ?f = trace ?s1 @ concat blocks" and
    b3: "\<forall>i<length ms'. \<forall>c m b. WriteJSON c m b \<in> set (blocks ! i) \<longrightarrow> m = ms' ! i" and
    b4: "\<forall>c\<in>dom (clients ?f). received c ?f = received c ?s1 @ ms'" and
    b5: "broadcast ?f = q"
    by blast
  have t: "trace ?f = trace s @ concat (?fan # blocks)"
    using b2 by simp
  have m: "\<forall>i<length ms. \<forall>c m b. WriteJSON c m b \<in> set ((?fan # blocks) ! i) \<longrightarrow> m = ms ! i"
  proof (intro allI impI)
    fix i c m b
    assume i: "i < length ms" and w: "WriteJSON c m b \<in> set ((?fan # blocks) ! i)"
    show "m = ms ! i"
    proof (cases i)
      case 0
      with w ms fan_events_msg show ?thesis by auto
    next
      case (Suc j)
      with i w ms b3 show ?thesis by auto
    qed
  qed
  have r: "\<forall>c\<in>dom (clients ?f). received c ?f = received c s @ ms"
  proof
    fix c
    assume c: "c \<in> dom (clients ?f)"
    then have nf: "clients ?f c \<noteq> None" by (rule domD[elim_format]) simp
    have n1: "clients ?s1 c \<noteq> None"
    proof
      assume "clients ?s1 c = None"
      then have "clients ?f c = None" by (rule handleMessages_absent)
      with nf show False by (rule notE)
    qed
    have cl1: "clients ?s1 c = (if c \<in> set order \<and> \<not> wr c then None else clients s c)"
      by simp
    from n1 have "\<not> (c \<in> set order \<and> \<not> wr c) \<and> c \<in> dom (clients s)"
      unfolding cl1 by (cases "c \<in> set order \<and> \<not> wr c") auto
    then have "c \<in> set order \<and> wr c"
      using dom by blast
    then have "received c ?s1 = received c s @ [M]"
      by (simp add: received_def received_fan[OF d])
    with b4 c ms show "received c ?f = received c s @ ms" by simp
  qed
  show ?case
    unfolding unfold using b1 ms t m r b5
    by (intro exI[of _ "?fan # blocks"]) simp
qed


lemma write_error_path:
  "send_to M False C s = remove_on_write_error C (conn_WriteJSON C M False s)"
  by (simp add: send_to_def)

lemma read_error_path: "exec (Read C None) s = remove_on_read_error C s"
  by (simp add: reader_iteration_def remove_on_read_error_def)

lemma remove_on_read_error_eq:
  "remove_on_read_error C s = s\<lparr>clients := (clients s)(C := None), trace := trace s @ [Close C]\<rparr>"
  by (simp add: remove_on_read_error_def conn_Close_def delete_clients_def)

lemma remove_on_write_error_eq:
  "remove_on_write_error C s = s\<lparr>clients := (clients s)(C := None), trace := trace s @ [Close C]\<rparr>"
  by (simp add: remove_on_write_error_def conn_Close_def delete_clients_def)

text \<open>
  C4 (as amended). Deleting a connection that is not in \<^verbatim>\<open>clients\<close> changes nothing. The
  write-error path of the hub and the read-error path of the reader are the two removal
  paths; when both run for the same connection, in either order, the second leaves
  \<^verbatim>\<open>clients\<close> as the first left it, and each of them calls \<^verbatim>\<open>Close\<close> on the connection:
  two calls of \<^verbatim>\<open>Close\<close> in all.
\<close>

theorem removal_twice:
  "(clients s C = None \<longrightarrow> delete_clients C s = s) \<and>
   send_to M False C s = remove_on_write_error C (conn_WriteJSON C M False s) \<and>
   exec (Read C None) s = remove_on_read_error C s \<and>
   clients (remove_on_write_error C s) = (clients s)(C := None) \<and>
   clients (remove_on_read_error C (remove_on_write_error C s)) = clients (remove_on_write_error C s) \<and>
   close_calls C (remove_on_read_error C (remove_on_write_error C s)) = close_calls C s + 2 \<and>
   clients (remove_on_read_error C s) = (clients s)(C := None) \<and>
   clients (remove_on_write_error C (remove_on_read_error C s)) = clients (remove_on_read_error C s) \<and>
   close_calls C (remove_on_write_error C (remove_on_read_error C s)) = close_calls C s + 2"
proof -
  have "clients s C = None \<longrightarrow> delete_clients C s = s"
    by (simp add: delete_clients_def fun_upd_idem)
  then show ?thesis
    by (simp add: write_error_path read_error_path remove_on_read_error_eq
        remove_on_write_error_eq close_calls_def del: exec.simps)
qed

text \<open>
  C5 (as amended). Both removal paths have the same effect: the entry of the connection
  is deleted from \<^verbatim>\<open>clients\<close> and \<^verbatim>\<open>Close\<close> is called on the connection once, whether or
  not it has been closed before. Nothing else changes: the task store, the ID counter,
  the channel, the entries of the other connections, what they have been sent and
  whether they are open.
\<close>

theorem removal_frame:
  "exec (Read C None) s = remove_on_read_error C s \<and>
   send_to M False C s = remove_on_write_error C (conn_WriteJSON C M False s) \<and>
   remove_on_write_error C s = remove_on_read_error C s \<and>
   remove_on_read_error C s = s\<lparr>clients := (clients s)(C := None), trace := trace s @ [Close C]\<rparr> \<and>
   tasks (remove_on_read_error C s) = tasks s \<and>
   nextID (remove_on_read_error C s) = nextID s \<and>
   broadcast (remove_on_read_error C s) = broadcast s \<and>
   clients (remove_on_read_error C s) C = None \<and>
   close_calls C (remove_on_read_error C s) = close_calls C s + 1 \<and>
   (\<forall>c. c \<noteq> C \<longrightarrow>
      clients (remove_on_read_error C s) c = clients s c \<and>
      close_calls c (remove_on_read_error C s) = close_calls c s \<and>
      is_open c (remove_on_read_error C s) = is_open c s) \<and>
   (\<forall>c. received c (remove_on_read_error C s) = received c s \<and>
      write_attempts c (remove_on_read_error C s) = write_attempts c s)"
  by (simp add: write_error_path read_error_path remove_on_read_error_eq
      remove_on_write_error_eq close_calls_def is_open_def received_def write_attempts_def
      del: exec.simps)

text \<open>
  C6. Reader failure. A reader whose read fails leaves its loop, deletes its own
  connection from \<^verbatim>\<open>clients\<close> and returns, closing the connection: so does the handler
  whose first read fails, and so does the failing pass of a reader in any state of a
  run. The pass puts nothing on the channel, no later read is made, the entries of all
  other connections, the task store and the counter are as before, and the connection
  stays out of \<^verbatim>\<open>clients\<close> in every later run in which it is not accepted anew. A
  reader that has read a message waits in the send with the message pending. All this
  is what happens when the pass is not cut in two by another goroutine. The claim also
  promises that no read failure ends the process: there the code falls short, for the
  deletion at line 247 is made with no lock held and conflicts with the hub's iteration
  at line 261 and its deletion at line 266.
\<close>

theorem reader_failure:
  "handleConnections (Some ws) (None # later) s =
     (remove_on_read_error ws (register_client ws s), Returned) \<and>
   handleConnections (Some ws) (Some m # later) s =
     ((register_client ws s)\<lparr>broadcast := broadcast s @ [m]\<rparr>, AtSend) \<and>
   exec (Read ws None) s = remove_on_read_error ws s \<and>
   clients (exec (Read ws None) s) ws = None \<and>
   (\<forall>c. c \<noteq> ws \<longrightarrow> clients (exec (Read ws None) s) c = clients s c) \<and>
   broadcast (exec (Read ws None) s) = broadcast s \<and>
   trace (exec (Read ws None) s) = trace s @ [Close ws] \<and>
   tasks (exec (Read ws None) s) = tasks s \<and>
   nextID (exec (Read ws None) s) = nextID s \<and>
   (\<forall>steps. Upgrade (Some ws) \<notin> set steps \<longrightarrow>
      clients (run steps (exec (Read ws None) s)) ws = None) \<and>
   (247, 261) \<in> set (races handleConnections_ops handleMessages_ops) \<and>
   (247, 266) \<in> set (races handleConnections_ops handleMessages_ops)"
proof -
  have h1: "handleConnections (Some ws) (None # later) s =
     (remove_on_read_error ws (register_client ws s), Returned)"
    by (simp add: handleConnections_def reader_iteration_def remove_on_read_error_def)
  have h2: "handleConnections (Some ws) (Some m # later) s =
     ((register_client ws s)\<lparr>broadcast := broadcast s @ [m]\<rparr>, AtSend)"
    by (simp add: handleConnections_def reader_iteration_def register_client_def)
  have gone: "clients (remove_on_read_error ws s) ws = None"
    by (simp add: remove_on_read_error_eq)
  have later: "\<forall>steps. Upgrade (Some ws) \<notin> set steps \<longrightarrow>
      clients (run steps (remove_on_read_error ws s)) ws = None"
    using run_absent[OF gone] by blast
  have r: "(247, 261) \<in> set (races handleConnections_ops handleMessages_ops)"
    "(247, 266) \<in> set (races handleConnections_ops handleMessages_ops)"
    by (simp_all add: races_def handleConnections_ops_def handleMessages_ops_def)
  show ?thesis
    unfolding read_error_path using h1 h2 later r
    by (simp add: remove_on_read_error_eq)
qed

text \<open>
  C7 (as amended). With the connections \<open>A\<close>, \<open>B\<close> and \<open>C\<close> registered and no message
  waiting, when \<open>A\<close> publishes a message and every write succeeds, each of \<open>A\<close>, \<open>B\<close> and
  \<open>C\<close> receives exactly one copy of it: the sender is a recipient like the others.
\<close>

theorem broadcast_includes_sender:
  assumes "dom (clients s) = {A, B, C}" and "broadcast s = []"
    and "distinct order" and "set order = {A, B, C}"
    and "wr A" and "wr B" and "wr C"
  shows "received A (run [Read A (Some M), Hub order wr] s) = received A s @ [M] \<and>
         received B (run [Read A (Some M), Hub order wr] s) = received B s @ [M] \<and>
         received C (run [Read A (Some M), Hub order wr] s) = received C s @ [M] \<and>
         clients (run [Read A (Some M), Hub order wr] s) = clients s \<and>
         broadcast (run [Read A (Some M), Hub order wr] s) = []"
proof -
  let ?s1 = "s\<lparr>broadcast := [M]\<rparr>"
  let ?s' = "?s1\<lparr>broadcast := [],
                trace := trace ?s1 @ concat (map (fan_events M wr) order),
                clients := (\<lambda>c. if c \<in> set order \<and> \<not> wr c then None else clients ?s1 c)\<rparr>"
  have rd: "exec (Read A (Some M)) s = ?s1"
    using assms(2) by (simp add: reader_iteration_def)
  have bc: "broadcast ?s1 = M # []" by simp
  have dm: "set order = dom (clients ?s1)" using assms(1,4) by simp
  have hub: "hub_iteration order wr ?s1 = Some ?s'"
    by (rule hub_iteration_eq[OF bc assms(3) dm])
  have run: "run [Read A (Some M), Hub order wr] s = ?s'"
    using rd hub by (simp del: exec.simps(3))
  have rec: "received c ?s' = received c s @ (if c \<in> set order \<and> wr c then [M] else [])" for c
    by (simp add: received_def received_fan[OF assms(3)])
  have cl: "clients ?s' = clients s"
    using assms(4-7) by (auto simp: fun_eq_iff)
  show ?thesis
    unfolding run using rec cl assms(4-7) by simp
qed

subsection \<open>The properties on concrete runs\<close>

lemma three_clients_eq:
  "three_clients =
     \<lparr>tasks = [], nextID = 1, clients = [1 \<mapsto> True, 2 \<mapsto> True, 3 \<mapsto> True],
      broadcast = [hi_from_alice], trace = []\<rparr>"
  by (simp add: three_clients_def init_def register_client_def reader_iteration_def)

lemma evicted_by_hub_eq:
  "evicted_by_hub =
     \<lparr>tasks = [], nextID = 1, clients = Map.empty,
      broadcast = [], trace = [WriteJSON 1 hi_from_alice False, Close 1]\<rparr>"
  by (simp add: evicted_by_hub_def init_def register_client_def reader_iteration_def
      hub_iteration_def send_to_def conn_WriteJSON_def remove_on_write_error_def conn_Close_def
      delete_clients_def unwritable_def)

theorem fanout_completeness_witness:
  "broadcast three_clients = [hi_from_alice] \<and> distinct [2, 3, 1 :: conn] \<and>
   set [2, 3, 1] = dom (clients three_clients) \<and> writable 1 \<and> writable 2 \<and> writable 3 \<and>
   (\<exists>s'. hub_iteration [2, 3, 1] writable three_clients = Some s' \<and>
      clients s' = clients three_clients \<and>
      received 1 s' = [hi_from_alice] \<and> received 2 s' = [hi_from_alice] \<and>
      received 3 s' = [hi_from_alice] \<and> received 4 s' = [] \<and>
      write_attempts 2 s' = [WriteJSON 2 hi_from_alice True] \<and>
      length (trace s') = 3)"
proof -
  have h1: "broadcast three_clients = hi_from_alice # []" by (simp add: three_clients_eq)
  have h2: "distinct [2, 3, 1 :: conn]" by simp
  have h3: "set [2, 3, 1] = dom (clients three_clients)" by (auto simp: three_clients_eq)
  have h4: "\<forall>c\<in>dom (clients three_clients). writable c" by (simp add: writable_def)
  have d: "dom (clients three_clients) = {1, 2, 3}" using h3 by auto
  have e: "received c three_clients = []" "write_attempts c three_clients = []"
    "trace three_clients = []" for c
    by (simp_all add: three_clients_eq received_def write_attempts_def)
  from fanout_completeness[OF h1 h2 h3 h4] obtain s' where
    "hub_iteration [2, 3, 1] writable three_clients = Some s'"
    "clients s' = clients three_clients"
    "\<forall>c\<in>dom (clients three_clients).
        received c s' = received c three_clients @ [hi_from_alice] \<and>
        write_attempts c s' = write_attempts c three_clients @ [WriteJSON c hi_from_alice True]"
    "\<forall>c. c \<notin> dom (clients three_clients) \<longrightarrow>
        received c s' = received c three_clients \<and>
        write_attempts c s' = write_attempts c three_clients"
    "length (trace s') = length (trace three_clients) + card (dom (clients three_clients))"
    by blast
  then have "hub_iteration [2, 3, 1] writable three_clients = Some s' \<and>
      clients s' = clients three_clients \<and>
      received 1 s' = [hi_from_alice] \<and> received 2 s' = [hi_from_alice] \<and>
      received 3 s' = [hi_from_alice] \<and> received 4 s' = [] \<and>
      write_attempts 2 s' = [WriteJSON 2 hi_from_alice True] \<and>
      length (trace s') = 3"
    unfolding d e by simp
  then show ?thesis
    using h1 h2 h3 by (auto simp: writable_def)
qed


theorem eviction_isolation_witness:
  "broadcast three_clients = [hi_from_alice] \<and> distinct [2, 3, 1 :: conn] \<and>
   set [2, 3, 1] = dom (clients three_clients) \<and> 2 \<in> dom (clients three_clients) \<and>
   \<not> broken 2 2 \<and>
   (\<exists>s'. hub_iteration [2, 3, 1] (broken 2) three_clients = Some s' \<and>
      clients s' = [1 \<mapsto> True, 3 \<mapsto> True] \<and>
      write_attempts 1 s' = [WriteJSON 1 hi_from_alice True] \<and>
      write_attempts 2 s' = [WriteJSON 2 hi_from_alice False] \<and>
      write_attempts 3 s' = [WriteJSON 3 hi_from_alice True] \<and>
      received 1 s' = [hi_from_alice] \<and> received 3 s' = [hi_from_alice] \<and>
      close_calls 2 s' = 1 \<and>
      write_attempts 2 (run [Read 1 (Some second_message), Hub [1, 3, 2] writable] s') =
        [WriteJSON 2 hi_from_alice False])"
proof -
  have h1: "broadcast three_clients = hi_from_alice # []" by (simp add: three_clients_eq)
  have h2: "distinct [2, 3, 1 :: conn]" by simp
  have h3: "set [2, 3, 1] = dom (clients three_clients)" by (auto simp: three_clients_eq)
  have h4: "2 \<in> dom (clients three_clients)" by (simp add: three_clients_eq)
  have h5: "\<not> broken 2 2" by (simp add: broken_def)
  have d: "dom (clients three_clients) = {1, 2, 3}" using h3 by auto
  have e: "received c three_clients = []" "write_attempts c three_clients = []"
    "close_calls c three_clients = 0" for c
    by (simp_all add: three_clients_eq received_def write_attempts_def close_calls_def)
  have only: "\<forall>c. c \<noteq> 2 \<longrightarrow> broken 2 c" by (simp add: broken_def)
  have later: "Upgrade (Some 2) \<notin> set [Read 1 (Some second_message), Hub [1, 3, 2] writable]"
    by simp
  from eviction_isolation[where wr = "broken 2" and C = 2, OF h1 h2 h3 h4 h5] obtain s' where
    a: "hub_iteration [2, 3, 1] (broken 2) three_clients = Some s'" and
    b: "(\<forall>c. c \<noteq> 2 \<longrightarrow> broken 2 c) \<longrightarrow> clients s' = (clients three_clients)(2 := None)" and
    c: "\<forall>c\<in>dom (clients three_clients).
              write_attempts c s' =
                write_attempts c three_clients @ [WriteJSON c hi_from_alice (broken 2 c)] \<and>
              (broken 2 c \<longrightarrow> received c s' = received c three_clients @ [hi_from_alice])" and
    f: "close_calls 2 s' = close_calls 2 three_clients + 1" and
    g: "\<forall>steps. Upgrade (Some 2) \<notin> set steps \<longrightarrow>
              clients (run steps s') 2 = None \<and>
              write_attempts 2 (run steps s') = write_attempts 2 s'"
    by blast
  from b only have "clients s' = (clients three_clients)(2 := None)" by blast
  then have cl: "clients s' = [1 \<mapsto> True, 3 \<mapsto> True]"
    by (auto simp: three_clients_eq fun_eq_iff)
  from c have att: "write_attempts 1 s' = [WriteJSON 1 hi_from_alice True]"
    "write_attempts 2 s' = [WriteJSON 2 hi_from_alice False]"
    "write_attempts 3 s' = [WriteJSON 3 hi_from_alice True]"
    "received 1 s' = [hi_from_alice]" "received 3 s' = [hi_from_alice]"
    unfolding d e by (simp_all add: broken_def)
  from g later have "write_attempts 2 (run [Read 1 (Some second_message), Hub [1, 3, 2] writable] s') =
      write_attempts 2 s'"
    by blast
  with a cl att f e h1 h2 h3 h4 h5 show ?thesis by auto
qed

text \<open>Two messages are waiting; the first fan-out loses connection 2.\<close>

theorem fifo_delivery_witness:
  "orders_of_map [([2, 3, 1], broken 2), ([3, 1], writable)]
     (exec (Read 3 (Some second_message)) three_clients) \<and>
   broadcast (exec (Read 3 (Some second_message)) three_clients) =
     [hi_from_alice, second_message] \<and>
   dom (clients (handleMessages [([2, 3, 1], broken 2), ([3, 1], writable)]
     (exec (Read 3 (Some second_message)) three_clients))) = {1, 3} \<and>
   received 1 (handleMessages [([2, 3, 1], broken 2), ([3, 1], writable)]
     (exec (Read 3 (Some second_message)) three_clients)) = [hi_from_alice, second_message] \<and>
   received 3 (handleMessages [([2, 3, 1], broken 2), ([3, 1], writable)]
     (exec (Read 3 (Some second_message)) three_clients)) = [hi_from_alice, second_message] \<and>
   broadcast (handleMessages [([2, 3, 1], broken 2), ([3, 1], writable)]
     (exec (Read 3 (Some second_message)) three_clients)) = []"
proof -
  let ?s = "exec (Read 3 (Some second_message)) three_clients"
  let ?env = "[([2, 3, 1], broken 2), ([3, 1], writable)]"
  have s: "?s = \<lparr>tasks = [], nextID = 1, clients = [1 \<mapsto> True, 2 \<mapsto> True, 3 \<mapsto> True],
      broadcast = [hi_from_alice, second_message], trace = []\<rparr>"
    by (simp add: three_clients_eq reader_iteration_def)
  have h1: "orders_of_map ?env ?s"
    unfolding s
    by (auto simp: hub_iteration_def send_to_def conn_WriteJSON_def remove_on_write_error_def
        conn_Close_def delete_clients_def broken_def writable_def)
  have h2: "length ?env = length [hi_from_alice, second_message]" by simp
  have h3: "broadcast ?s = [hi_from_alice, second_message] @ []" unfolding s by simp
  have d: "dom (clients (handleMessages ?env ?s)) = {1, 3}"
    unfolding s
    by (auto simp: hub_iteration_def send_to_def conn_WriteJSON_def remove_on_write_error_def
        conn_Close_def delete_clients_def broken_def writable_def split: if_splits)
  have e: "received c ?s = []" for c
    unfolding s by (simp add: received_def)
  from fifo_delivery[OF h1 h2 h3] have
    "\<forall>c\<in>dom (clients (handleMessages ?env ?s)).
        received c (handleMessages ?env ?s) = received c ?s @ [hi_from_alice, second_message]"
    "broadcast (handleMessages ?env ?s) = []"
    by blast+
  then have "received 1 (handleMessages ?env ?s) = [hi_from_alice, second_message]"
    "received 3 (handleMessages ?env ?s) = [hi_from_alice, second_message]"
    "broadcast (handleMessages ?env ?s) = []"
    unfolding d e by simp_all
  with h1 h3 d show ?thesis by (simp del: exec.simps)
qed


text \<open>
  C4 as stated, with exactly one close, fails: a connection is accepted and sends a
  message, the write of it back fails and the hub closes and deletes the connection;
  the reader's next read fails, and on its way out it closes the connection again.
\<close>

theorem removal_twice_counterexample:
  "trace (run [Upgrade (Some 1), Read 1 (Some hi_from_alice), Hub [1] unwritable, Read 1 None] init) =
     [WriteJSON 1 hi_from_alice False, Close 1, Close 1] \<and>
   close_calls 1
     (run [Upgrade (Some 1), Read 1 (Some hi_from_alice), Hub [1] unwritable, Read 1 None] init) = 2"
proof -
  have "run [Upgrade (Some 1), Read 1 (Some hi_from_alice), Hub [1] unwritable, Read 1 None] init =
          exec (Read 1 None) evicted_by_hub"
    by (simp add: evicted_by_hub_def del: exec.simps)
  then show ?thesis
    by (simp add: evicted_by_hub_eq reader_iteration_def delete_clients_def conn_Close_def
        close_calls_def)
qed

theorem removal_twice_witness:
  "clients evicted_by_hub 1 = None \<and> delete_clients 1 evicted_by_hub = evicted_by_hub \<and>
   exec (Read 1 None) evicted_by_hub = remove_on_read_error 1 evicted_by_hub \<and>
   clients (remove_on_write_error 2 three_clients) = [1 \<mapsto> True, 3 \<mapsto> True] \<and>
   clients (remove_on_read_error 2 (remove_on_write_error 2 three_clients)) =
     [1 \<mapsto> True, 3 \<mapsto> True] \<and>
   close_calls 2 (remove_on_read_error 2 (remove_on_write_error 2 three_clients)) = 2"
proof -
  have h: "clients evicted_by_hub 1 = None" by (simp add: evicted_by_hub_eq)
  have c: "clients three_clients = [1 \<mapsto> True, 2 \<mapsto> True, 3 \<mapsto> True]"
    "close_calls 2 three_clients = 0"
    by (simp_all add: three_clients_eq close_calls_def)
  have m: "[1 \<mapsto> True, 2 \<mapsto> True, 3 \<mapsto> True](2 := None) = [1::conn \<mapsto> True, 3 \<mapsto> True]"
    by (auto simp: fun_eq_iff)
  from removal_twice[of evicted_by_hub 1 hi_from_alice] h
  have 1: "delete_clients 1 evicted_by_hub = evicted_by_hub"
    "exec (Read 1 None) evicted_by_hub = remove_on_read_error 1 evicted_by_hub"
    by blast+
  from removal_twice[of three_clients 2 hi_from_alice]
  have 2: "clients (remove_on_write_error 2 three_clients) = (clients three_clients)(2 := None)"
    "clients (remove_on_read_error 2 (remove_on_write_error 2 three_clients)) =
       clients (remove_on_write_error 2 three_clients)"
    "close_calls 2 (remove_on_read_error 2 (remove_on_write_error 2 three_clients)) =
       close_calls 2 three_clients + 2"
    by blast+
  from h 1 2 show ?thesis
    unfolding c m by simp
qed

text \<open>
  C5 as stated, with a close only if the connection is still open, fails: after the hub
  has closed and deleted connection 1, the reader's removal calls \<^verbatim>\<open>Close\<close> on it again.
\<close>

theorem removal_frame_counterexample:
  "\<not> is_open 1 evicted_by_hub \<and>
   exec (Read 1 None) evicted_by_hub = remove_on_read_error 1 evicted_by_hub \<and>
   trace (remove_on_read_error 1 evicted_by_hub) = trace evicted_by_hub @ [Close 1] \<and>
   trace (remove_on_read_error 1 evicted_by_hub) \<noteq> trace evicted_by_hub"
  by (simp add: evicted_by_hub_eq is_open_def remove_on_read_error_eq read_error_path
      del: exec.simps)

theorem removal_frame_witness:
  "remove_on_read_error 2 three_clients =
     \<lparr>tasks = [], nextID = 1, clients = [1 \<mapsto> True, 3 \<mapsto> True],
      broadcast = [hi_from_alice], trace = [Close 2]\<rparr> \<and>
   remove_on_write_error 2 three_clients = remove_on_read_error 2 three_clients \<and>
   clients (remove_on_read_error 2 three_clients) 1 = clients three_clients 1 \<and>
   clients (remove_on_read_error 2 three_clients) 3 = clients three_clients 3 \<and>
   is_open 1 (remove_on_read_error 2 three_clients) = is_open 1 three_clients \<and>
   close_calls 2 (remove_on_read_error 2 three_clients) = 1"
proof -
  have m: "[1 \<mapsto> True, 2 \<mapsto> True, 3 \<mapsto> True](2 := None) = [1::conn \<mapsto> True, 3 \<mapsto> True]"
    by (auto simp: fun_eq_iff)
  have c: "close_calls 2 three_clients = 0"
    by (simp add: three_clients_eq close_calls_def)
  from removal_frame[of 2 three_clients hi_from_alice]
  have "remove_on_write_error 2 three_clients = remove_on_read_error 2 three_clients"
    "remove_on_read_error 2 three_clients =
       three_clients\<lparr>clients := (clients three_clients)(2 := None),
                     trace := trace three_clients @ [Close 2]\<rparr>"
    "close_calls 2 (remove_on_read_error 2 three_clients) = close_calls 2 three_clients + 1"
    "\<forall>c. c \<noteq> 2 \<longrightarrow>
      clients (remove_on_read_error 2 three_clients) c = clients three_clients c \<and>
      close_calls c (remove_on_read_error 2 three_clients) = close_calls c three_clients \<and>
      is_open c (remove_on_read_error 2 three_clients) = is_open c three_clients"
    by blast+
  then show ?thesis
    unfolding c by (simp add: three_clients_eq m)
qed

theorem reader_failure_witness:
  "handleConnections (Some 4) [None, Some hi_from_alice] three_clients =
     (\<lparr>tasks = [], nextID = 1, clients = [1 \<mapsto> True, 2 \<mapsto> True, 3 \<mapsto> True],
       broadcast = [hi_from_alice], trace = [Close 4]\<rparr>, Returned) \<and>
   handleConnections (Some 4) [Some second_message, None] three_clients =
     (\<lparr>tasks = [], nextID = 1,
       clients = [1 \<mapsto> True, 2 \<mapsto> True, 3 \<mapsto> True, 4 \<mapsto> True],
       broadcast = [hi_from_alice, second_message], trace = []\<rparr>, AtSend) \<and>
   clients (exec (Read 3 None) three_clients) 1 = clients three_clients 1 \<and>
   clients (exec (Read 3 None) three_clients) 3 = None \<and>
   clients (run [Read 1 (Some second_message), Hub [1, 2, 3] writable]
     (exec (Read 3 None) three_clients)) 3 = None"
proof -
  have m: "[1 \<mapsto> True, 2 \<mapsto> True, 3 \<mapsto> True, 4 \<mapsto> True](4 := None)
             = [1::conn \<mapsto> True, 2 \<mapsto> True, 3 \<mapsto> True]"
    by (auto simp: fun_eq_iff)
  have n: "Upgrade (Some 3) \<notin> set [Read 1 (Some second_message), Hub [1, 2, 3] writable]"
    by simp
  note rf = reader_failure[of 4 "[Some hi_from_alice]" three_clients second_message]
  note rg = reader_failure[of 4 "[None]" three_clients second_message]
  note rh = reader_failure[of 3 "[]" three_clients second_message]
  from rf have a: "handleConnections (Some 4) [None, Some hi_from_alice] three_clients =
     (remove_on_read_error 4 (register_client 4 three_clients), Returned)"
    by blast
  from rg have b: "handleConnections (Some 4) [Some second_message, None] three_clients =
     ((register_client 4 three_clients)\<lparr>broadcast := broadcast three_clients @ [second_message]\<rparr>,
      AtSend)"
    by blast
  from rh have c: "clients (exec (Read 3 None) three_clients) 3 = None"
    "\<forall>c. c \<noteq> 3 \<longrightarrow> clients (exec (Read 3 None) three_clients) c = clients three_clients c"
    "\<forall>steps. Upgrade (Some 3) \<notin> set steps \<longrightarrow>
      clients (run steps (exec (Read 3 None) three_clients)) 3 = None"
    by blast+
  from c(2) have c2: "clients (exec (Read 3 None) three_clients) 1 = clients three_clients 1"
    by simp
  from c(3) n have c3: "clients (run [Read 1 (Some second_message), Hub [1, 2, 3] writable]
     (exec (Read 3 None) three_clients)) 3 = None"
    by blast
  have a': "(remove_on_read_error 4 (register_client 4 three_clients), Returned) =
     (\<lparr>tasks = [], nextID = 1, clients = [1 \<mapsto> True, 2 \<mapsto> True, 3 \<mapsto> True],
       broadcast = [hi_from_alice], trace = [Close 4]\<rparr>, Returned)"
    by (simp add: three_clients_eq remove_on_read_error_eq register_client_def m)
  have b': "((register_client 4 three_clients)\<lparr>broadcast := broadcast three_clients @ [second_message]\<rparr>,
      AtSend) =
     (\<lparr>tasks = [], nextID = 1,
       clients = [1 \<mapsto> True, 2 \<mapsto> True, 3 \<mapsto> True, 4 \<mapsto> True],
       broadcast = [hi_from_alice, second_message], trace = []\<rparr>, AtSend)"
    by (simp add: three_clients_eq register_client_def)
  from a b c(1) c2 c3 show ?thesis
    unfolding a' b' by (intro conjI)
qed

text \<open>
  C7 as stated, with no copy for the sender, fails: connection 1 has published
  \<open>{"username":"alice","content":"hi"}\<close> and receives it back.
\<close>

theorem broadcast_includes_sender_counterexample:
  "received 1 (run [Hub [1, 2, 3] writable] three_clients) = [hi_from_alice] \<and>
   received 2 (run [Hub [1, 2, 3] writable] three_clients) = [hi_from_alice] \<and>
   received 3 (run [Hub [1, 2, 3] writable] three_clients) = [hi_from_alice] \<and>
   trace (run [Hub [1, 2, 3] writable] three_clients) =
     [WriteJSON 1 hi_from_alice True, WriteJSON 2 hi_from_alice True,
      WriteJSON 3 hi_from_alice True]"
  by (simp add: three_clients_eq hub_iteration_def send_to_def conn_WriteJSON_def
      writable_def received_def)

theorem broadcast_includes_sender_witness:
  "dom (clients (run [Upgrade (Some 1), Upgrade (Some 2), Upgrade (Some 3)] init)) = {1, 2, 3} \<and>
   broadcast (run [Upgrade (Some 1), Upgrade (Some 2), Upgrade (Some 3)] init) = [] \<and>
   distinct [3, 1, 2 :: conn] \<and> set [3, 1, 2 :: conn] = {1, 2, 3} \<and>
   writable 1 \<and> writable 2 \<and> writable 3 \<and>
   received 1 (run [Read 1 (Some hi_from_alice), Hub [3, 1, 2] writable]
     (run [Upgrade (Some 1), Upgrade (Some 2), Upgrade (Some 3)] init)) = [hi_from_alice] \<and>
   received 2 (run [Read 1 (Some hi_from_alice), Hub [3, 1, 2] writable]
     (run [Upgrade (Some 1), Upgrade (Some 2), Upgrade (Some 3)] init)) = [hi_from_alice] \<and>
   received 3 (run [Read 1 (Some hi_from_alice), Hub [3, 1, 2] writable]
     (run [Upgrade (Some 1), Upgrade (Some 2), Upgrade (Some 3)] init)) = [hi_from_alice]"
proof -
  let ?s = "run [Upgrade (Some 1), Upgrade (Some 2), Upgrade (Some 3)] init"
  have s: "?s = \<lparr>tasks = [], nextID = 1, clients = [1 \<mapsto> True, 2 \<mapsto> True, 3 \<mapsto> True],
      broadcast = [], trace = []\<rparr>"
    by (simp add: init_def register_client_def)
  have h1: "dom (clients ?s) = {1, 2, 3}" unfolding s by auto
  have h2: "broadcast ?s = []" unfolding s by simp
  have h3: "distinct [3, 1, 2 :: conn]" by simp
  have h4: "set [3, 1, 2 :: conn] = {1, 2, 3}" by auto
  have h5: "writable 1" "writable 2" "writable 3" by (simp_all add: writable_def)
  have e: "received c ?s = []" for c unfolding s by (simp add: received_def)
  from broadcast_includes_sender[where wr = writable and M = hi_from_alice,
      OF h1 h2 h3 h4 h5]
  have "received 1 (run [Read 1 (Some hi_from_alice), Hub [3, 1, 2] writable] ?s) = [hi_from_alice]"
    "received 2 (run [Read 1 (Some hi_from_alice), Hub [3, 1, 2] writable] ?s) = [hi_from_alice]"
    "received 3 (run [Read 1 (Some hi_from_alice), Hub [3, 1, 2] writable] ?s) = [hi_from_alice]"
    unfolding e by simp_all
  with h1 h2 h3 h4 h5 show ?thesis by blast
qed

section \<open>Synchronisation of the shared variables\<close>

text \<open>
  C8. The claim asks that every operation on the registry be synchronised. In the code
  no access to \<^verbatim>\<open>clients\<close> is made under a lock: each access of a reader (the
  registration at line 239, the deletion at line 247) conflicts with each access of the
  hub (the iteration at line 261, the deletion at line 266) and with the accesses of
  every other reader, since a reader runs per connection. The task handlers show
  what is missing: all their accesses to \<^verbatim>\<open>tasks\<close> and \<^verbatim>\<open>nextID\<close> are made holding
  \<^verbatim>\<open>tasksMu\<close>, and no two of them conflict.
\<close>

theorem clients_unsynchronized:
  "races handleConnections_ops handleMessages_ops =
     [(239, 261), (239, 266), (247, 261), (247, 266)] \<and>
   races handleConnections_ops handleConnections_ops =
     [(239, 239), (239, 247), (247, 239), (247, 247)] \<and>
   all_races [createTask_ops, getTasks_ops, getTask_ops, updateTask_ops, deleteTask_ops] = []"
  by (simp add: races_def all_races_def handleConnections_ops_def handleMessages_ops_def
      createTask_ops_def getTasks_ops_def getTask_ops_def updateTask_ops_def deleteTask_ops_def)

end
